theory Spec2Isabelle
  imports Main "HOL-Library.Sublist"
begin

section \<open>The scratch file system\<close>

text \<open>
  \<^verbatim>\<open>api/generate-pdf.js\<close> works on the local file system under \<^verbatim>\<open>/tmp\<close> through
  Node's \<^verbatim>\<open>fs\<close> module. The file system is modelled as a flat table from absolute
  paths to entries. A path is the list of its segments below the root, so the root is
  \<open>[]\<close> and \<^verbatim>\<open>/tmp/a\<close> is \<open>[''tmp'', ''a'']\<close>. The root is always a
  directory and has no row of its own. The order of the rows is the order in which
  \<^verbatim>\<open>readdirSync\<close> lists names: Node promises no particular order, and no theorem
  below depends on one.

  A file holds either the serialisation of a PDF document, given by its pages, or bytes
  that \<^verbatim>\<open>PDFDocument.load\<close> rejects.
\<close>

type_synonym path = "string list"

type_synonym page = string

datatype bytes = PdfBytes "page list" | OtherBytes string

datatype entry = File bytes | Directory

type_synonym filesys = "(path \<times> entry) list"

datatype error =
    ENOENT | ENOTDIR | EISDIR | EEXIST | EBUSY
  | MissingUrl | HttpError | StreamError
  | PdfParseError
  | ProviderError string
  | TypeError
  | UploadError | MailError

definition lookup :: "filesys \<Rightarrow> path \<Rightarrow> entry option" where
  "lookup fs p = (if p = [] then Some Directory else map_of fs p)"

text \<open>
  A table describes a file system when the root has no row and the parent of every
  row is a directory.
\<close>

definition wf_fs :: "filesys \<Rightarrow> bool" where
  "wf_fs fs = (\<forall>(q, e) \<in> set fs. q \<noteq> [] \<and> lookup fs (butlast q) = Some Directory)"

definition existsSync :: "filesys \<Rightarrow> path \<Rightarrow> bool" where
  "existsSync fs p = (lookup fs p \<noteq> None)"

definition children :: "filesys \<Rightarrow> path \<Rightarrow> string list" where
  "children fs p = map (last \<circ> fst) (filter (\<lambda>(q, e). q \<noteq> [] \<and> butlast q = p) fs)"

definition readdirSync :: "filesys \<Rightarrow> path \<Rightarrow> error + string list" where
  "readdirSync fs p =
     (case lookup fs p of
        None \<Rightarrow> Inl ENOENT
      | Some (File b) \<Rightarrow> Inl ENOTDIR
      | Some Directory \<Rightarrow> Inr (children fs p))"

text \<open>\<^verbatim>\<open>fs.lstatSync(p).isDirectory()\<close>\<close>

definition lstat_isDirectory :: "filesys \<Rightarrow> path \<Rightarrow> error + bool" where
  "lstat_isDirectory fs p =
     (case lookup fs p of
        None \<Rightarrow> Inl ENOENT
      | Some e \<Rightarrow> Inr (e = Directory))"

definition unlinkSync :: "filesys \<Rightarrow> path \<Rightarrow> error + filesys" where
  "unlinkSync fs p =
     (case lookup fs p of
        None \<Rightarrow> Inl ENOENT
      | Some Directory \<Rightarrow> Inl EISDIR
      | Some (File b) \<Rightarrow> Inr (filter (\<lambda>(q, e). q \<noteq> p) fs))"

text \<open>
  \<^verbatim>\<open>fs.rmSync(p, { recursive: true, force: true })\<close> removes \<open>p\<close> and everything below
  it, and with \<^verbatim>\<open>force\<close> accepts a path that does not exist. The root cannot be
  removed.
\<close>

definition rmSync :: "filesys \<Rightarrow> path \<Rightarrow> error + filesys" where
  "rmSync fs p =
     (if p = [] then Inl EBUSY
      else Inr (filter (\<lambda>(q, e). \<not> prefix p q) fs))"

text \<open>
  \<^verbatim>\<open>fs.mkdirSync(p, { recursive: true })\<close> creates the missing directories on the way
  to \<open>p\<close>, accepts those that exist and fails at a file. \<open>mkdir_from fs q ss\<close> has
  reached \<open>q\<close> and still has the segments \<open>ss\<close> to go.
\<close>

fun mkdir_from :: "filesys \<Rightarrow> path \<Rightarrow> string list \<Rightarrow> error + filesys" where
  "mkdir_from fs q [] = Inr fs"
| "mkdir_from fs q (s # ss) =
     (case lookup fs (q @ [s]) of
        None \<Rightarrow> mkdir_from (fs @ [(q @ [s], Directory)]) (q @ [s]) ss
      | Some Directory \<Rightarrow> mkdir_from fs (q @ [s]) ss
      | Some (File b) \<Rightarrow> Inl (if ss = [] then EEXIST else ENOTDIR))"

definition mkdirSync :: "filesys \<Rightarrow> path \<Rightarrow> error + filesys" where
  "mkdirSync fs p = mkdir_from fs [] p"

text \<open>
  Writing a whole file (\<^verbatim>\<open>fs.promises.writeFile\<close>, or a write stream that was
  piped to its end): the parent must be a directory and the path must not be one; an
  existing file is replaced.
\<close>

definition writeFile :: "filesys \<Rightarrow> path \<Rightarrow> bytes \<Rightarrow> error + filesys" where
  "writeFile fs p b =
     (if p = [] then Inl EISDIR
      else case lookup fs (butlast p) of
        None \<Rightarrow> Inl ENOENT
      | Some (File c) \<Rightarrow> Inl ENOTDIR
      | Some Directory \<Rightarrow>
          (case lookup fs p of
             Some Directory \<Rightarrow> Inl EISDIR
           | _ \<Rightarrow> Inr (filter (\<lambda>(q, e). q \<noteq> p) fs @ [(p, File b)])))"

definition readFile :: "filesys \<Rightarrow> path \<Rightarrow> error + bytes" where
  "readFile fs p =
     (case lookup fs p of
        None \<Rightarrow> Inl ENOENT
      | Some Directory \<Rightarrow> Inl EISDIR
      | Some (File b) \<Rightarrow> Inr b)"

section \<open>The Directory Stager\<close>

text \<open>
  \<^verbatim>\<open>clearDirectory\<close> (lines 32-45) calls itself on every subdirectory it finds, with
  the file system as the earlier calls left it. The depth of that recursion depends on
  the file system, so the model carries fuel: the number of nested calls still allowed.
  \<open>None\<close> means that the fuel ran out, \<open>Some (Inl e)\<close> that a call of \<^verbatim>\<open>fs\<close> threw
  \<open>e\<close>, and \<open>Some (Inr fs')\<close> that the function returned and left \<open>fs'\<close>.
  \<open>clear_each\<close> is the \<^verbatim>\<open>forEach\<close> over the names that \<^verbatim>\<open>readdirSync\<close> returned.
\<close>

fun clearDirectory :: "nat \<Rightarrow> filesys \<Rightarrow> path \<Rightarrow> (error + filesys) option"
  and clear_each :: "nat \<Rightarrow> filesys \<Rightarrow> path \<Rightarrow> string list \<Rightarrow> (error + filesys) option"
where
  "clearDirectory 0 fs directory = None"
| "clearDirectory (Suc n) fs directory =
     (if existsSync fs directory then
        (case readdirSync fs directory of
           Inl e \<Rightarrow> Some (Inl e)
         | Inr names \<Rightarrow>
             (case clear_each n fs directory names of
                None \<Rightarrow> None
              | Some (Inl e) \<Rightarrow> Some (Inl e)
              | Some (Inr fs1) \<Rightarrow>
                  (case rmSync fs1 directory of
                     Inl e \<Rightarrow> Some (Inl e)
                   | Inr fs2 \<Rightarrow> Some (mkdirSync fs2 directory))))
      else Some (mkdirSync fs directory))"
| "clear_each n fs directory [] = Some (Inr fs)"
| "clear_each n fs directory (file # rest) =
     (let curPath = directory @ [file] in
      case lstat_isDirectory fs curPath of
        Inl e \<Rightarrow> Some (Inl e)
      | Inr True \<Rightarrow>
          (case clearDirectory n fs curPath of
             None \<Rightarrow> None
           | Some (Inl e) \<Rightarrow> Some (Inl e)
           | Some (Inr fs') \<Rightarrow> clear_each n fs' directory rest)
      | Inr False \<Rightarrow>
          (case unlinkSync fs curPath of
             Inl e \<Rightarrow> Some (Inl e)
           | Inr fs' \<Rightarrow> clear_each n fs' directory rest))"

text \<open>\<open>no_below fs d\<close>: no row of the table lies strictly below \<open>d\<close>.\<close>

definition no_below :: "filesys \<Rightarrow> path \<Rightarrow> bool" where
  "no_below fs d = (\<forall>(q, e) \<in> set fs. \<not> strict_prefix d q)"

text \<open>The scratch area of the examples: a category directory with a file and a nested
  directory, beside a file that is not part of it.\<close>

definition example_fs :: filesys where
  "example_fs =
     [([''tmp''], Directory),
      ([''tmp'', ''a''], Directory),
      ([''tmp'', ''a'', ''x.pdf''], File (PdfBytes [''p''])),
      ([''tmp'', ''a'', ''sub''], Directory),
      ([''tmp'', ''a'', ''sub'', ''y''], File (OtherBytes ''z'')),
      ([''tmp'', ''keep''], File (OtherBytes ''k''))]"


text \<open>
  The length of the longest path of the table bounds the depth to which
  \<^verbatim>\<open>clearDirectory\<close> can descend. \<open>fuel_ok n\<close> says that \<open>n\<close> nested calls are enough
  wherever the longest path is less than \<open>n\<close> segments longer than the directory.
\<close>

fun maxlen :: "filesys \<Rightarrow> nat" where
  "maxlen [] = 0"
| "maxlen ((q, e) # fs) = max (length q) (maxlen fs)"

definition fuel_ok :: "nat \<Rightarrow> bool" where
  "fuel_ok n = (\<forall>fs d. 0 < n \<and> maxlen fs < n + length d \<longrightarrow>
     (\<exists>r. clearDirectory n fs d = Some r \<and>
          (\<forall>fs'. r = Inr fs' \<longrightarrow> maxlen fs' \<le> max (maxlen fs) (length d))))"

text \<open>
  In a file system no path has two rows. \<open>clears_ok n\<close> says that \<open>n\<close> nested calls
  clear every directory that is not too deep for them: the call returns, the table still
  describes a file system, and nothing outside the directory has changed.
\<close>

definition wfd :: "filesys \<Rightarrow> bool" where
  "wfd fs = (wf_fs fs \<and> distinct (map fst fs))"

definition clears_ok :: "nat \<Rightarrow> bool" where
  "clears_ok n = (\<forall>fs d. wfd fs \<and> d \<noteq> [] \<and> lookup fs d = Some Directory \<and> maxlen fs < n + length d \<longrightarrow>
     (\<exists>fs'. clearDirectory n fs d = Some (Inr fs') \<and> wfd fs' \<and> maxlen fs' \<le> maxlen fs \<and>
           (\<forall>q. \<not> prefix d q \<longrightarrow> lookup fs' q = lookup fs q) \<and> lookup fs' d = Some Directory))"

section \<open>Strings and paths\<close>

text \<open>
  Strings are modelled over ASCII. \<open>show_int\<close> is the decimal text that a template
  string gives an integral Number, \<open>toUpperCase\<close> and \<open>toLowerCase\<close> change the
  letters \<^verbatim>\<open>a-z\<close> and \<^verbatim>\<open>A-Z\<close>.
\<close>

fun show_nat :: "nat \<Rightarrow> string" where
  "show_nat n =
     (if n < 10 then [''0123456789'' ! n]
      else show_nat (n div 10) @ [''0123456789'' ! (n mod 10)])"

declare show_nat.simps [simp del]

definition show_int :: "int \<Rightarrow> string" where
  "show_int i = (if i < 0 then CHR ''-'' # show_nat (nat (- i)) else show_nat (nat i))"

definition lower_letters :: string where
  "lower_letters = ''abcdefghijklmnopqrstuvwxyz''"

definition upper_letters :: string where
  "upper_letters = ''ABCDEFGHIJKLMNOPQRSTUVWXYZ''"

definition toUpperCase :: "string \<Rightarrow> string" where
  "toUpperCase s =
     map (\<lambda>c. case map_of (zip lower_letters upper_letters) c of None \<Rightarrow> c | Some u \<Rightarrow> u) s"

definition toLowerCase :: "string \<Rightarrow> string" where
  "toLowerCase s =
     map (\<lambda>c. case map_of (zip upper_letters lower_letters) c of None \<Rightarrow> c | Some l \<Rightarrow> l) s"

text \<open>
  \<^verbatim>\<open>path.join\<close> and \<^verbatim>\<open>path.resolve\<close> on POSIX: the pieces are cut at \<^verbatim>\<open>/\<close>, empty
  segments and \<^verbatim>\<open>.\<close> are dropped, and \<^verbatim>\<open>..\<close> steps back to the parent (the root is its
  own parent). The first argument is always an absolute path that is already
  normalised. \<^verbatim>\<open>path.resolve\<close> starts again from the root when its second argument is
  absolute.
\<close>

fun split_slash :: "string \<Rightarrow> string \<Rightarrow> string list" where
  "split_slash cur [] = [cur]"
| "split_slash cur (c # cs) =
     (if c = CHR ''/'' then cur # split_slash [] cs else split_slash (cur @ [c]) cs)"

fun norm_segs :: "path \<Rightarrow> string list \<Rightarrow> path" where
  "norm_segs acc [] = acc"
| "norm_segs acc (s # ss) =
     (if s = [] \<or> s = ''.'' then norm_segs acc ss
      else if s = ''..'' then norm_segs (butlast acc) ss
      else norm_segs (acc @ [s]) ss)"

definition path_join :: "path \<Rightarrow> string \<Rightarrow> path" where
  "path_join base s = norm_segs base (split_slash [] s)"

definition path_resolve :: "path \<Rightarrow> string \<Rightarrow> path" where
  "path_resolve base s =
     (case s of
        [] \<Rightarrow> base
      | c # cs \<Rightarrow> if c = CHR ''/'' then norm_segs [] (split_slash [] s)
                  else norm_segs base (split_slash [] s))"

section \<open>Invoices, the console and the outside world\<close>

text \<open>
  An Invoice Link is the object \<^verbatim>\<open>pdfLink\<close> of lines 143-148. \<open>None\<close> stands for
  \<^verbatim>\<open>null\<close>. The invoices of the provider carry the same fields under the names
  \<^verbatim>\<open>id\<close>, \<^verbatim>\<open>status\<close>, \<^verbatim>\<open>number\<close>, \<^verbatim>\<open>invoice_pdf\<close>, \<^verbatim>\<open>amount_paid\<close> and
  \<^verbatim>\<open>amount_due\<close>; here they are prefixed with \<open>inv_\<close>.
\<close>

record link =
  invoice_pdf :: "string option"
  invoice_number :: "string option"
  amount_paid :: int
  amount_due :: int

record invoice =
  inv_id :: string
  inv_status :: string
  inv_number :: "string option"
  inv_invoice_pdf :: "string option"
  inv_amount_paid :: int
  inv_amount_due :: int

text \<open>One page of \<^verbatim>\<open>stripe.invoices.list\<close>; \<open>data = None\<close> is a page without \<^verbatim>\<open>data\<close>.\<close>

record list_page =
  data :: "invoice list option"
  has_more :: bool

text \<open>The lines written by \<^verbatim>\<open>console.log\<close> and \<^verbatim>\<open>console.error\<close>, one constructor for each
  call in the source.\<close>

datatype event =
    FileDownloaded path
  | ErrorDownloading "string option" error
  | Retrying "string option" nat
  | FailedToDownload "string option" nat
  | AllDownloaded string
  | ErrorDownloadingFiles error
  | PdfsMerged path
  | EmptyPdfCreated path
  | ErrorRetrievingList error
  | EmailSentUser
  | EmailSentAdmin
  | ErrorProcessing error

text \<open>
  What one \<^verbatim>\<open>http.get\<close> followed by \<^verbatim>\<open>pipelineAsync\<close> into a write stream can do:
  the request fails (network error or a status outside 2xx) before the write stream
  is made; the response arrives and the stream breaks after some bytes, which the write
  stream has put into the file by then; or the whole body arrives.
\<close>

datatype get_result = GetFails | StreamBreaks bytes | Delivers bytes

text \<open>
  The values a field of the JSON request body can hold, as far as the handler tells
  them apart: missing, \<^verbatim>\<open>null\<close>, a boolean, an integral number, a string.
\<close>

datatype jsval = JUndefined | JNull | JBool bool | JNum int | JStr string

text \<open>The mail to the requester, with its attachments, and the mail to the
  administrator, with the links.\<close>

datatype mail = UserMail jsval "path list" | AdminMail "string list"

text \<open>
  The state that a request changes: the files, the console, the numbers of requests
  sent to the network and to the provider so far, the files uploaded and the mails sent.
\<close>

record world =
  files :: filesys
  console :: "event list"
  requests :: nat
  list_calls :: nat
  uploaded :: "path list"
  mails :: "mail list"

text \<open>
  The outside world answers: \<open>http_get e k u\<close> is what the \<open>k\<close>-th request of the
  process does when it asks for \<open>u\<close>; \<open>invoices_list e key k\<close> is the provider's
  answer to the \<open>k\<close>-th listing call, made for the account \<open>key\<close> with the cursor and
  the date range given, a page or the message of the error it throws; \<open>upload\<close> and \<open>send_mail\<close> are the storage service and the mail
  transport; \<open>local_tza e t\<close> is the offset of the server's time zone from UTC, in
  milliseconds, at local time \<open>t\<close>; \<open>config_keys\<close> is \<^verbatim>\<open>Object.keys(config)\<close> for the
  file \<^verbatim>\<open>config.json\<close>, which is not part of the sources.
\<close>

record env =
  http_get :: "nat \<Rightarrow> string \<Rightarrow> get_result"
  invoices_list :: "string \<Rightarrow> nat \<Rightarrow> string option \<Rightarrow> int option \<Rightarrow> int option \<Rightarrow> string + list_page"
  upload :: "path \<Rightarrow> bytes \<Rightarrow> error + string"
  send_mail :: "mail \<Rightarrow> bool"
  local_tza :: "int \<Rightarrow> int"
  config_keys :: "string list"

definition log :: "event \<Rightarrow> world \<Rightarrow> world" where
  "log ev w = w\<lparr>console := console w @ [ev]\<rparr>"

section \<open>The Resilient Fetcher\<close>

text \<open>
  The \<^verbatim>\<open>try\<close> block of \<^verbatim>\<open>downloadWithRetry\<close> (lines 57-67). A missing or empty
  \<^verbatim>\<open>invoice_pdf\<close> throws before any request is made. A write stream that cannot open
  its file fails the pipeline with the error of the file system.
\<close>

definition try_download :: "env \<Rightarrow> link \<Rightarrow> path \<Rightarrow> world \<Rightarrow> (error + unit) \<times> world" where
  "try_download e url dest w =
     (case invoice_pdf url of
        None \<Rightarrow> (Inl MissingUrl, w)
      | Some u \<Rightarrow>
          if u = [] then (Inl MissingUrl, w)
          else
            let w1 = w\<lparr>requests := requests w + 1\<rparr> in
            (case http_get e (requests w) u of
               GetFails \<Rightarrow> (Inl HttpError, w1)
             | StreamBreaks part \<Rightarrow>
                 (case writeFile (files w1) dest part of
                    Inl err \<Rightarrow> (Inl err, w1)
                  | Inr fs' \<Rightarrow> (Inl StreamError, w1\<lparr>files := fs'\<rparr>))
             | Delivers b \<Rightarrow>
                 (case writeFile (files w1) dest b of
                    Inl err \<Rightarrow> (Inl err, w1)
                  | Inr fs' \<Rightarrow> (Inr (), log (FileDownloaded dest) (w1\<lparr>files := fs'\<rparr>)))))"

text \<open>
  \<^verbatim>\<open>downloadWithRetry\<close> (lines 56-81): the \<^verbatim>\<open>catch\<close> block logs the error and calls
  the function again while \<^verbatim>\<open>attempt <= 5\<close>. The result says whether the promise is
  fulfilled (\<open>Inr\<close>) or rejected (\<open>Inl\<close>).
\<close>

function downloadWithRetry :: "env \<Rightarrow> link \<Rightarrow> path \<Rightarrow> nat \<Rightarrow> world \<Rightarrow> (error + unit) \<times> world" where
  "downloadWithRetry e url dest attempt w =
     (case try_download e url dest w of
        (Inr u, w1) \<Rightarrow> (Inr (), w1)
      | (Inl err, w1) \<Rightarrow>
          let w2 = log (ErrorDownloading (invoice_number url) err) w1 in
          if attempt \<le> 5 then
            downloadWithRetry e url dest (attempt + 1) (log (Retrying (invoice_number url) attempt) w2)
          else (Inr (), log (FailedToDownload (invoice_number url) attempt) w2))"
  by pat_completeness auto
termination
  by (relation "measure (\<lambda>(e, url, dest, attempt, w). 6 - attempt)") auto

declare downloadWithRetry.simps [simp del]

text \<open>The file name \<^verbatim>\<open>`${url.invoice_number}.pdf`\<close>; \<^verbatim>\<open>null\<close> prints as \<^verbatim>\<open>null\<close>.\<close>

definition pdf_name :: "link \<Rightarrow> string" where
  "pdf_name url = (case invoice_number url of None \<Rightarrow> ''null'' | Some n \<Rightarrow> n) @ ''.pdf''"

text \<open>
  \<^verbatim>\<open>Promise.all(downloadPromises)\<close> (lines 53-87). The downloads of one category run
  interleaved in the source; the model runs them one after the other in the order of
  the list, and reports the first rejection if there is one.
\<close>

fun download_all :: "env \<Rightarrow> path \<Rightarrow> link list \<Rightarrow> world \<Rightarrow> (error + unit) \<times> world" where
  "download_all e tmpDir [] w = (Inr (), w)"
| "download_all e tmpDir (url # urls) w =
     (case downloadWithRetry e url (path_resolve tmpDir (pdf_name url)) 1 w of
        (Inl err, w1) \<Rightarrow> (Inl err, snd (download_all e tmpDir urls w1))
      | (Inr u, w1) \<Rightarrow> download_all e tmpDir urls w1)"

text \<open>
  \<^verbatim>\<open>downloadPdfs\<close> (lines 47-95). \<^verbatim>\<open>clearDirectory\<close> gets one unit of fuel more than the
  longest path has segments, which is always enough (\<open>clearDirectory_enough_fuel\<close>
  below).
\<close>

definition downloadPdfs :: "env \<Rightarrow> link list \<Rightarrow> string \<Rightarrow> world \<Rightarrow> ((error + path list) \<times> world) option" where
  "downloadPdfs e urls category w =
     (let tmpDir = path_join [''tmp''] category in
      case clearDirectory (Suc (maxlen (files w))) (files w) tmpDir of
        None \<Rightarrow> None
      | Some (Inl err) \<Rightarrow> Some (Inl err, w)
      | Some (Inr fs1) \<Rightarrow>
          (case download_all e tmpDir urls (w\<lparr>files := fs1\<rparr>) of
             (Inl err, w1) \<Rightarrow> Some (Inl err, log (ErrorDownloadingFiles err) w1)
           | (Inr u, w1) \<Rightarrow>
               let w2 = log (AllDownloaded category) w1 in
               (case readdirSync (files w2) tmpDir of
                  Inl err \<Rightarrow> Some (Inl err, log (ErrorDownloadingFiles err) w2)
                | Inr names \<Rightarrow> Some (Inr (map (path_join tmpDir) names), w2))))"

text \<open>
  Every attempt ends with one line on the console: \<^verbatim>\<open>File downloaded\<close> or
  \<^verbatim>\<open>Error downloading\<close>. \<open>attempts_logged\<close> counts these lines.
\<close>

fun is_attempt_end :: "event \<Rightarrow> bool" where
  "is_attempt_end (FileDownloaded p) = True"
| "is_attempt_end (ErrorDownloading n err) = True"
| "is_attempt_end ev = False"

definition attempts_logged :: "event list \<Rightarrow> nat" where
  "attempts_logged evs = length (filter is_attempt_end evs)"

text \<open>
  A link whose every attempt fails before a write stream is made: the URL is missing or
  empty, or every request for it fails.
\<close>

definition fails_before_stream :: "env \<Rightarrow> link \<Rightarrow> bool" where
  "fails_before_stream e url =
     (case invoice_pdf url of
        None \<Rightarrow> True
      | Some u \<Rightarrow> u = [] \<or> (\<forall>k. http_get e k u = GetFails))"

section \<open>The PDF Consolidator\<close>

text \<open>
  \<^verbatim>\<open>PDFDocument.load\<close> gives the pages of a PDF and throws on other bytes;
  \<^verbatim>\<open>getPageIndices\<close> counts them from 0; \<^verbatim>\<open>copyPages\<close> returns the pages at the
  indices asked for, in that order; \<^verbatim>\<open>save\<close> serialises a document.
\<close>

definition PDFDocument_load :: "bytes \<Rightarrow> error + page list" where
  "PDFDocument_load b = (case b of PdfBytes ps \<Rightarrow> Inr ps | OtherBytes s \<Rightarrow> Inl PdfParseError)"

definition getPageIndices :: "page list \<Rightarrow> nat list" where
  "getPageIndices pdfDoc = [0..<length pdfDoc]"

definition copyPages :: "page list \<Rightarrow> nat list \<Rightarrow> page list" where
  "copyPages pdfDoc indices = map (\<lambda>i. pdfDoc ! i) indices"

text \<open>The \<^verbatim>\<open>for\<close> loop of \<^verbatim>\<open>mergePdfs\<close> (lines 99-107); \<open>mergedPdf\<close> holds the pages
  added so far.\<close>

fun merge_loop :: "filesys \<Rightarrow> path list \<Rightarrow> page list \<Rightarrow> error + page list" where
  "merge_loop fs [] mergedPdf = Inr mergedPdf"
| "merge_loop fs (pdfPath # rest) mergedPdf =
     (case readFile fs pdfPath of
        Inl err \<Rightarrow> Inl err
      | Inr pdfBytes \<Rightarrow>
          (case PDFDocument_load pdfBytes of
             Inl err \<Rightarrow> Inl err
           | Inr pdfDoc \<Rightarrow>
               merge_loop fs rest (mergedPdf @ copyPages pdfDoc (getPageIndices pdfDoc))))"

definition mergePdfs :: "path list \<Rightarrow> path \<Rightarrow> world \<Rightarrow> (error + unit) \<times> world" where
  "mergePdfs pdfPaths outputPath w =
     (case merge_loop (files w) pdfPaths [] of
        Inl err \<Rightarrow> (Inl err, w)
      | Inr mergedPdf \<Rightarrow>
          (case writeFile (files w) outputPath (PdfBytes mergedPdf) of
             Inl err \<Rightarrow> (Inl err, w)
           | Inr fs' \<Rightarrow> (Inr (), log (PdfsMerged outputPath) (w\<lparr>files := fs'\<rparr>))))"




definition notice :: page where
  "notice = ''No data available for this category.''"

definition createEmptyPdf :: "path \<Rightarrow> world \<Rightarrow> (error + unit) \<times> world" where
  "createEmptyPdf outputPath w =
     (case writeFile (files w) outputPath (PdfBytes [notice]) of
        Inl err \<Rightarrow> (Inl err, w)
      | Inr fs' \<Rightarrow> (Inr (), log (EmptyPdfCreated outputPath) (w\<lparr>files := fs'\<rparr>)))"


section \<open>The Invoice Lister\<close>

definition isPaidOrOpen :: "string \<Rightarrow> bool" where
  "isPaidOrOpen st = (st \<in> set [''paid'', ''open''])"

definition pdfLink :: "invoice \<Rightarrow> link" where
  "pdfLink invoice =
     \<lparr>invoice_pdf = inv_invoice_pdf invoice, invoice_number = inv_number invoice,
      amount_paid = inv_amount_paid invoice, amount_due = inv_amount_due invoice\<rparr>"

text \<open>The \<^verbatim>\<open>forEach\<close> of lines 142-155, on the two lists it pushes to.\<close>

fun route_each :: "invoice list \<Rightarrow> link list \<times> link list \<Rightarrow> link list \<times> link list" where
  "route_each [] acc = acc"
| "route_each (invoice # rest) (paidAndOpenLinks, otherStatusLinks) =
     (if isPaidOrOpen (inv_status invoice)
      then route_each rest (paidAndOpenLinks @ [pdfLink invoice], otherStatusLinks)
      else route_each rest (paidAndOpenLinks, otherStatusLinks @ [pdfLink invoice]))"

text \<open>
  \<^verbatim>\<open>invoices.data[invoices.data.length - 1].id\<close> (line 157): on an empty array the
  index is \<open>-1\<close>, the element is \<^verbatim>\<open>undefined\<close> and reading \<^verbatim>\<open>id\<close> throws a
  \<^verbatim>\<open>TypeError\<close>.
\<close>

definition last_id :: "invoice list \<Rightarrow> error + string" where
  "last_id d = (if length d = 0 then Inl TypeError else Inr (inv_id (d ! (length d - 1))))"

text \<open>
  The \<^verbatim>\<open>do ... while\<close> loop of lines 131-158. It runs for as long as the provider
  goes on answering with pages that are not empty and have \<^verbatim>\<open>has_more\<close> set, so the
  result is an option: \<open>None\<close> is a loop that never ends. \<open>stripe\<close> is the client of
  one account.
\<close>

type_synonym stripe_client = "nat \<Rightarrow> string option \<Rightarrow> int option \<Rightarrow> int option \<Rightarrow> string + list_page"

partial_function (option) list_loop ::
  "stripe_client \<Rightarrow> int option \<Rightarrow> int option \<Rightarrow> string option \<Rightarrow> link list \<times> link list \<Rightarrow> world
    \<Rightarrow> ((error + link list \<times> link list) \<times> world) option"
where
  "list_loop stripe gte lte starting_after acc w =
     (case stripe (list_calls w) starting_after gte lte of
        Inl msg \<Rightarrow> Some (Inl (ProviderError msg), w\<lparr>list_calls := list_calls w + 1\<rparr>)
      | Inr invoices \<Rightarrow>
          let w1 = w\<lparr>list_calls := list_calls w + 1\<rparr> in
          (case data invoices of
             None \<Rightarrow> Some (Inr acc, w1)
           | Some d \<Rightarrow>
               if length d = 0 then Some (Inr acc, w1)
               else
                 let acc' = route_each d acc in
                 (case last_id d of
                    Inl err \<Rightarrow> Some (Inl err, w1)
                  | Inr cursor \<Rightarrow>
                      if has_more invoices
                      then list_loop stripe gte lte (Some cursor) acc' w1
                      else Some (Inr acc', w1))))"

declare list_loop.simps [code]

text \<open>\<^verbatim>\<open>getInvoicesList\<close> (lines 124-165): the loop starts without a cursor and with
  two empty lists; an error is logged and thrown again.\<close>

text \<open>
  The invoices on the pages that the provider returns to the calls of the loop, in the
  order in which it returns them: the calls are numbered from \<open>k\<close>, the first is made
  with the cursor \<open>starting_after\<close>, and each further one with the \<^verbatim>\<open>id\<close> of the last
  invoice of the page before. This is the provider's side of the pagination; the
  theorems compare the two lists of the loop with it.
\<close>

partial_function (option) returned_invoices ::
  "stripe_client \<Rightarrow> int option \<Rightarrow> int option \<Rightarrow> string option \<Rightarrow> nat \<Rightarrow> invoice list option"
where
  "returned_invoices stripe gte lte starting_after k =
     (case stripe k starting_after gte lte of
        Inl msg \<Rightarrow> Some []
      | Inr invoices \<Rightarrow>
          (case data invoices of
             None \<Rightarrow> Some []
           | Some d \<Rightarrow>
               if d = [] then Some []
               else if has_more invoices
               then Option.bind
                      (returned_invoices stripe gte lte (Some (inv_id (last d))) (k + 1))
                      (\<lambda>later. Some (d @ later))
               else Some d))"

declare returned_invoices.simps [code]

definition getInvoicesList ::
  "stripe_client \<Rightarrow> int option \<Rightarrow> int option \<Rightarrow> world
    \<Rightarrow> ((error + link list \<times> link list) \<times> world) option"
where
  "getInvoicesList stripe gte lte w =
     (case list_loop stripe gte lte None ([], []) w of
        None \<Rightarrow> None
      | Some (Inl err, w1) \<Rightarrow> Some (Inl err, log (ErrorRetrievingList err) w1)
      | Some (Inr r, w1) \<Rightarrow> Some (Inr r, w1))"

section \<open>The Pipeline Orchestrator\<close>

definition outputPath_of :: "string \<Rightarrow> string \<Rightarrow> string \<Rightarrow> int \<Rightarrow> path" where
  "outputPath_of configKey categoryName monthName yr =
     path_join [''tmp'']
       (toUpperCase configKey @ ''-'' @ categoryName @ ''-'' @ monthName @ ''-'' @ show_int yr @ ''.pdf'')"

text \<open>The body of the \<^verbatim>\<open>for\<close> loop of \<^verbatim>\<open>processInvoices\<close> (lines 176-187) for one
  category, a name with its links; it returns the output path.\<close>

definition process_category ::
  "env \<Rightarrow> string \<Rightarrow> string \<Rightarrow> int \<Rightarrow> string \<times> link list \<Rightarrow> world
    \<Rightarrow> ((error + path) \<times> world) option"
where
  "process_category e configKey monthName yr category w =
     (case category of (name, links) \<Rightarrow>
        let outputPath = outputPath_of configKey name monthName yr in
        if length links > 0 then
          (case downloadPdfs e links (toLowerCase name @ ''_'' @ configKey) w of
             None \<Rightarrow> None
           | Some (Inl err, w1) \<Rightarrow> Some (Inl err, w1)
           | Some (Inr pdfPaths, w1) \<Rightarrow>
               (case mergePdfs pdfPaths outputPath w1 of
                  (Inl err, w2) \<Rightarrow> Some (Inl err, w2)
                | (Inr u, w2) \<Rightarrow> Some (Inr outputPath, w2)))
        else
          (case createEmptyPdf outputPath w of
             (Inl err, w1) \<Rightarrow> Some (Inl err, w1)
           | (Inr u, w1) \<Rightarrow> Some (Inr outputPath, w1)))"

text \<open>The loop itself (lines 175-189), with the paths pushed so far.\<close>

fun process_categories ::
  "env \<Rightarrow> (string \<times> link list) list \<Rightarrow> string \<Rightarrow> string \<Rightarrow> int \<Rightarrow> path list \<Rightarrow> world
    \<Rightarrow> ((error + path list) \<times> world) option"
where
  "process_categories e [] configKey monthName yr mergedPdfPaths w = Some (Inr mergedPdfPaths, w)"
| "process_categories e (category # rest) configKey monthName yr mergedPdfPaths w =
     (case process_category e configKey monthName yr category w of
        None \<Rightarrow> None
      | Some (Inl err, w1) \<Rightarrow> Some (Inl err, w1)
      | Some (Inr outputPath, w1) \<Rightarrow>
          process_categories e rest configKey monthName yr (mergedPdfPaths @ [outputPath]) w1)"

definition processInvoices ::
  "env \<Rightarrow> link list \<Rightarrow> link list \<Rightarrow> string \<Rightarrow> string \<Rightarrow> int \<Rightarrow> world
    \<Rightarrow> ((error + path list) \<times> world) option"
where
  "processInvoices e paidAndOpenLinks otherStatusLinks configKey monthName yr w =
     process_categories e
       [(''Paid_And_Open'', paidAndOpenLinks), (''Other_Status'', otherStatusLinks)]
       configKey monthName yr [] w"

text \<open>The loop over the configured accounts in the handler (lines 235-240).\<close>

fun collect_accounts ::
  "env \<Rightarrow> string list \<Rightarrow> int option \<Rightarrow> int option \<Rightarrow> string \<Rightarrow> int \<Rightarrow> path list \<Rightarrow> world
    \<Rightarrow> ((error + path list) \<times> world) option"
where
  "collect_accounts e [] startDate endDate monthName yr allMergedPdfPaths w =
     Some (Inr allMergedPdfPaths, w)"
| "collect_accounts e (configKey # rest) startDate endDate monthName yr allMergedPdfPaths w =
     (case getInvoicesList (invoices_list e configKey) startDate endDate w of
        None \<Rightarrow> None
      | Some (Inl err, w1) \<Rightarrow> Some (Inl err, w1)
      | Some (Inr (paidAndOpenLinks, otherStatusLinks), w1) \<Rightarrow>
          (case processInvoices e paidAndOpenLinks otherStatusLinks configKey monthName yr w1 of
             None \<Rightarrow> None
           | Some (Inl err, w2) \<Rightarrow> Some (Inl err, w2)
           | Some (Inr mergedPdfPaths, w2) \<Rightarrow>
               collect_accounts e rest startDate endDate monthName yr
                 (allMergedPdfPaths @ mergedPdfPaths) w2))"

section \<open>The Delivery Stage\<close>

fun upload_all :: "env \<Rightarrow> path list \<Rightarrow> string list \<Rightarrow> world \<Rightarrow> (error + string list) \<times> world" where
  "upload_all e [] uploadedUrls w = (Inr uploadedUrls, w)"
| "upload_all e (pdfPath # rest) uploadedUrls w =
     (case readFile (files w) pdfPath of
        Inl err \<Rightarrow> (Inl err, w)
      | Inr b \<Rightarrow>
          (case upload e pdfPath b of
             Inl err \<Rightarrow> (Inl err, w)
           | Inr secure_url \<Rightarrow>
               upload_all e rest (uploadedUrls @ [secure_url])
                 (w\<lparr>uploaded := uploaded w @ [pdfPath]\<rparr>)))"

definition deliver :: "env \<Rightarrow> jsval \<Rightarrow> path list \<Rightarrow> world \<Rightarrow> (error + unit) \<times> world" where
  "deliver e email allMergedPdfPaths w =
     (case upload_all e allMergedPdfPaths [] w of
        (Inl err, w1) \<Rightarrow> (Inl err, w1)
      | (Inr uploadedUrls, w1) \<Rightarrow>
          if \<not> send_mail e (UserMail email allMergedPdfPaths) then (Inl MailError, w1)
          else
            let w2 = log EmailSentUser (w1\<lparr>mails := mails w1 @ [UserMail email allMergedPdfPaths]\<rparr>) in
            if \<not> send_mail e (AdminMail uploadedUrls) then (Inl MailError, w2)
            else (Inr (), log EmailSentAdmin (w2\<lparr>mails := mails w2 @ [AdminMail uploadedUrls]\<rparr>)))"

section \<open>The request handler\<close>

subsection \<open>Validation\<close>

text \<open>
  \<open>truthy\<close> is JavaScript's \<^verbatim>\<open>ToBoolean\<close>, \<open>ToString\<close> its \<^verbatim>\<open>ToString\<close> (for an
  integral number below \<open>10\<^sup>2\<^sup>1\<close> in size, the decimal digits), and \<open>parseInt\<close> is
  \<^verbatim>\<open>parseInt(v, 10)\<close>: leading white space is skipped, one sign is read, and the
  longest run of decimal digits that follows is the number; with no digit there the
  result is \<^verbatim>\<open>NaN\<close>, here \<open>None\<close>.
\<close>

fun truthy :: "jsval \<Rightarrow> bool" where
  "truthy JUndefined = False"
| "truthy JNull = False"
| "truthy (JBool b) = b"
| "truthy (JNum n) = (n \<noteq> 0)"
| "truthy (JStr s) = (s \<noteq> [])"

fun ToString :: "jsval \<Rightarrow> string" where
  "ToString JUndefined = ''undefined''"
| "ToString JNull = ''null''"
| "ToString (JBool b) = (if b then ''true'' else ''false'')"
| "ToString (JNum n) = show_int n"
| "ToString (JStr s) = s"

definition is_space :: "char \<Rightarrow> bool" where
  "is_space c = (c \<in> set [CHR '' '', CHR 0x09, CHR 0x0A, CHR 0x0B, CHR 0x0C, CHR 0x0D])"

definition is_digit :: "char \<Rightarrow> bool" where
  "is_digit c = (c \<in> set ''0123456789'')"

definition digit_value :: "char \<Rightarrow> nat" where
  "digit_value c = length (takeWhile (\<lambda>d. d \<noteq> c) ''0123456789'')"

definition digits_value :: "string \<Rightarrow> nat" where
  "digits_value ds = foldl (\<lambda>a c. 10 * a + digit_value c) 0 ds"

definition parseInt :: "jsval \<Rightarrow> int option" where
  "parseInt v =
     (let s = dropWhile is_space (ToString v);
          (sign, s1) = (case s of
                          [] \<Rightarrow> (1, s)
                        | c # cs \<Rightarrow> if c = CHR ''-'' then (- 1, cs)
                                    else if c = CHR ''+'' then (1, cs) else (1, s));
          ds = takeWhile is_digit s1
      in if ds = [] then None else Some (sign * int (digits_value ds)))"

subsection \<open>The date range\<close>

text \<open>
  \<^verbatim>\<open>new Date(year, month, date, hours, minutes, seconds, ms).getTime()\<close> as ECMAScript
  defines it: a year from 0 to 99 stands for 1900 plus that year; \<^verbatim>\<open>MakeDay\<close> carries
  a month outside 0-11 into the year and counts days from the first of the month, so
  that day 0 is the day before it; the local time is turned into UTC with the offset of
  the time zone; a time outside the range of \<^verbatim>\<open>Date\<close> is \<^verbatim>\<open>NaN\<close>, here \<open>None\<close>.
\<close>

definition DayFromYear :: "int \<Rightarrow> int" where
  "DayFromYear y =
     365 * (y - 1970) + (y - 1969) div 4 - (y - 1901) div 100 + (y - 1601) div 400"

definition leap :: "int \<Rightarrow> bool" where
  "leap y = (y mod 4 = 0 \<and> (y mod 100 \<noteq> 0 \<or> y mod 400 = 0))"

definition month_start :: "nat \<Rightarrow> bool \<Rightarrow> int" where
  "month_start mn lp =
     [0, 31, 59, 90, 120, 151, 181, 212, 243, 273, 304, 334] ! mn + (if lp \<and> 2 \<le> mn then 1 else 0)"

definition MakeDay :: "int \<Rightarrow> int \<Rightarrow> int \<Rightarrow> int" where
  "MakeDay yr mo dt =
     (let ym = yr + mo div 12; mn = nat (mo mod 12)
      in DayFromYear ym + month_start mn (leap ym) + dt - 1)"

definition MakeTime :: "int \<Rightarrow> int \<Rightarrow> int \<Rightarrow> int \<Rightarrow> int" where
  "MakeTime h mi s ms = h * 3600000 + mi * 60000 + s * 1000 + ms"

definition MakeDate :: "int \<Rightarrow> int \<Rightarrow> int" where
  "MakeDate dy tm = dy * 86400000 + tm"

definition TimeClip :: "int \<Rightarrow> int option" where
  "TimeClip t = (if \<bar>t\<bar> > 8640000000000000 then None else Some t)"

definition Date_getTime :: "(int \<Rightarrow> int) \<Rightarrow> int \<Rightarrow> int \<Rightarrow> int \<Rightarrow> int \<Rightarrow> int \<Rightarrow> int \<Rightarrow> int \<Rightarrow> int option" where
  "Date_getTime tza y mo dt h mi s ms =
     (let yr = (if 0 \<le> y \<and> y \<le> 99 then 1900 + y else y);
          t = MakeDate (MakeDay yr mo dt) (MakeTime h mi s ms)
      in TimeClip (t - tza t))"

text \<open>Lines 227 and 228; \<^verbatim>\<open>Math.floor\<close> of \<^verbatim>\<open>NaN\<close> is \<^verbatim>\<open>NaN\<close>.\<close>

definition startDate_of :: "(int \<Rightarrow> int) \<Rightarrow> int \<Rightarrow> int \<Rightarrow> int option" where
  "startDate_of tza parsedYear parsedMonth =
     map_option (\<lambda>t. t div 1000) (Date_getTime tza parsedYear parsedMonth 1 0 0 0 0)"

definition endDate_of :: "(int \<Rightarrow> int) \<Rightarrow> int \<Rightarrow> int \<Rightarrow> int option" where
  "endDate_of tza parsedYear parsedMonth =
     map_option (\<lambda>t. t div 1000) (Date_getTime tza parsedYear (parsedMonth + 1) 0 23 59 59 999)"

definition monthNames :: "string list" where
  "monthNames = [''January'', ''February'', ''March'', ''April'', ''May'', ''June'', ''July'',
     ''August'', ''September'', ''October'', ''November'', ''December'']"

text \<open>\<^verbatim>\<open>monthNames[parsedMonth]\<close> in a template string: outside the array it is
  \<^verbatim>\<open>undefined\<close>.\<close>

definition monthName_of :: "int \<Rightarrow> string" where
  "monthName_of parsedMonth =
     (if 0 \<le> parsedMonth \<and> parsedMonth < 12 then monthNames ! nat parsedMonth else ''undefined'')"

subsection \<open>The handler\<close>

record request =
  req_method :: string
  body_year :: jsval
  body_month :: jsval
  body_email :: jsval

datatype response = Response nat string

text \<open>Lines 212-293: everything after validation.\<close>

definition run_pipeline :: "env \<Rightarrow> int \<Rightarrow> int \<Rightarrow> jsval \<Rightarrow> world \<Rightarrow> (response \<times> world) option" where
  "run_pipeline e parsedYear parsedMonth email w =
     (let monthName = monthName_of parsedMonth;
          startDate = startDate_of (local_tza e) parsedYear parsedMonth;
          endDate = endDate_of (local_tza e) parsedYear parsedMonth
      in case collect_accounts e (config_keys e) startDate endDate monthName parsedYear [] w of
           None \<Rightarrow> None
         | Some (Inl err, w1) \<Rightarrow>
             Some (Response 500 ''Internal Server Error.'', log (ErrorProcessing err) w1)
         | Some (Inr allMergedPdfPaths, w1) \<Rightarrow>
             (case deliver e email allMergedPdfPaths w1 of
                (Inl err, w2) \<Rightarrow>
                  Some (Response 500 ''Internal Server Error.'', log (ErrorProcessing err) w2)
              | (Inr u, w2) \<Rightarrow> Some (Response 200 ''All data is sent to admin email.'', w2)))"

text \<open>\<^verbatim>\<open>module.exports\<close> (lines 194-294).\<close>

definition handler :: "env \<Rightarrow> request \<Rightarrow> world \<Rightarrow> (response \<times> world) option" where
  "handler e req w =
     (if req_method req \<noteq> ''POST'' then Some (Response 405 ''Method not allowed'', w)
      else if \<not> truthy (body_year req) \<or> \<not> truthy (body_month req) \<or> \<not> truthy (body_email req)
      then Some (Response 400 ''Year, month, and email are required.'', w)
      else
        (case (parseInt (body_year req), map_option (\<lambda>m. m - 1) (parseInt (body_month req))) of
           (Some parsedYear, Some parsedMonth) \<Rightarrow>
             run_pipeline e parsedYear parsedMonth (body_email req) w
         | _ \<Rightarrow> Some (Response 400 ''Invalid year or month.'', w)))"


section \<open>Example data\<close>

text \<open>
  One account whose provider returns three invoices on two pages: a paid one and a
  draft without number or PDF on the first page, an open one on the second. Any other
  cursor gets an empty page that still claims to have more.
\<close>

definition inv_a :: invoice where
  "inv_a = \<lparr>inv_id = ''in_1'', inv_status = ''paid'', inv_number = Some ''A-1'',
     inv_invoice_pdf = Some ''https://pay/a.pdf'', inv_amount_paid = 10, inv_amount_due = 10\<rparr>"

definition inv_b :: invoice where
  "inv_b = \<lparr>inv_id = ''in_2'', inv_status = ''draft'', inv_number = None,
     inv_invoice_pdf = None, inv_amount_paid = 0, inv_amount_due = 5\<rparr>"

definition inv_c :: invoice where
  "inv_c = \<lparr>inv_id = ''in_3'', inv_status = ''open'', inv_number = Some ''A-3'',
     inv_invoice_pdf = Some ''https://pay/c.pdf'', inv_amount_paid = 0, inv_amount_due = 7\<rparr>"

definition example_stripe :: stripe_client where
  "example_stripe k cursor gte lte =
     (if cursor = None then Inr \<lparr>data = Some [inv_a, inv_b], has_more = True\<rparr>
      else if cursor = Some ''in_2'' then Inr \<lparr>data = Some [inv_c], has_more = False\<rparr>
      else Inr \<lparr>data = Some [], has_more = True\<rparr>)"

definition example_world :: world where
  "example_world =
     \<lparr>files = [([''tmp''], Directory)], console = [], requests = 0, list_calls = 0,
      uploaded = [], mails = []\<rparr>"



text \<open>
  An environment with two accounts and a provider that has no invoices, and one with
  the account of the examples, where the file of the paid invoice arrives at once and
  that of the open invoice at the third request of the process.
\<close>

definition empty_env :: env where
  "empty_env =
     \<lparr>http_get = (\<lambda>k u. GetFails),
      invoices_list = (\<lambda>key k cursor gte lte. Inr \<lparr>data = Some [], has_more = False\<rparr>),
      upload = (\<lambda>p b. Inr ''https://cdn/x''),
      send_mail = (\<lambda>m. True),
      local_tza = (\<lambda>t. 18000000),
      config_keys = [''acme'', ''beta'']\<rparr>"

definition example_env :: env where
  "example_env =
     \<lparr>http_get = (\<lambda>k u. if u = ''https://pay/a.pdf'' then Delivers (PdfBytes [''a1'', ''a2''])
                        else if k < 3 then GetFails else Delivers (PdfBytes [''c1''])),
      invoices_list = (\<lambda>key. example_stripe),
      upload = (\<lambda>p b. Inr ''https://cdn/x''),
      send_mail = (\<lambda>m. True),
      local_tza = (\<lambda>t. 18000000),
      config_keys = [''acme'']\<rparr>"



definition post_request :: "jsval \<Rightarrow> jsval \<Rightarrow> jsval \<Rightarrow> request" where
  "post_request y m em = \<lparr>req_method = ''POST'', body_year = y, body_month = m, body_email = em\<rparr>"

section \<open>The calendar\<close>








section \<open>Properties of the file system operations\<close>

lemma children_no_below: "no_below fs d \<Longrightarrow> children fs d = []"
proof -
  assume nb: "no_below fs d"
  have "\<not> (q \<noteq> [] \<and> butlast q = d)" if "(q, e) \<in> set fs" for q e
  proof
    assume a: "q \<noteq> [] \<and> butlast q = d"
    then have "q = d @ [last q]" by (metis append_butlast_last_id)
    then have "strict_prefix d q" by (metis append_Nil2 not_Cons_self2 prefixI same_append_eq strict_prefix_def)
    with nb that show False by (auto simp: no_below_def)
  qed
  then show ?thesis by (auto simp: children_def filter_empty_conv)
qed

lemma lookup_mono_mkdir:
  "mkdir_from fs q ss = Inr fs' \<Longrightarrow> lookup fs r = Some e \<Longrightarrow> lookup fs' r = Some e"
proof (induction fs q ss rule: mkdir_from.induct)
  case (1 fs q) then show ?case by simp
next
  case (2 fs q s ss)
  show ?case
  proof (cases "lookup fs (q @ [s])")
    case None
    have "lookup (fs @ [(q @ [s], Directory)]) r = Some e"
      using "2.prems"(2) by (auto simp: lookup_def map_add_def split: if_splits)
    with 2 None show ?thesis by simp
  next
    case (Some a)
    with 2 show ?thesis by (cases a) auto
  qed
qed

lemma mkdir_from_reaches:
  "mkdir_from fs q ss = Inr fs' \<Longrightarrow> lookup fs q = Some Directory \<Longrightarrow> lookup fs' (q @ ss) = Some Directory"
proof (induction fs q ss rule: mkdir_from.induct)
  case (1 fs q) then show ?case by simp
next
  case (2 fs q s ss)
  show ?case
  proof (cases "lookup fs (q @ [s])")
    case None
    have "lookup (fs @ [(q @ [s], Directory)]) (q @ [s]) = Some Directory"
      using None by (auto simp: lookup_def map_add_def split: if_splits)
    with 2 None show ?thesis by simp
  next
    case (Some a)
    with 2 show ?thesis by (cases a) auto
  qed
qed

lemma mkdir_from_rows:
  "mkdir_from fs q ss = Inr fs' \<Longrightarrow> (r, e) \<in> set fs' \<Longrightarrow> (r, e) \<in> set fs \<or> (prefix r (q @ ss) \<and> e = Directory)"
proof (induction fs q ss rule: mkdir_from.induct)
  case (1 fs q) then show ?case by simp
next
  case (2 fs q s ss)
  show ?case
  proof (cases "lookup fs (q @ [s])")
    case None
    with 2 have "(r, e) \<in> set (fs @ [(q @ [s], Directory)]) \<or> (prefix r ((q @ [s]) @ ss) \<and> e = Directory)"
      by simp
    then show ?thesis by auto
  next
    case (Some a)
    with 2 show ?thesis by (cases a) auto
  qed
qed

lemma mkdir_from_keeps:
  "mkdir_from fs q ss = Inr fs' \<Longrightarrow> set fs \<subseteq> set fs'"
proof (induction fs q ss rule: mkdir_from.induct)
  case (1 fs q) then show ?case by simp
next
  case (2 fs q s ss)
  show ?case
  proof (cases "lookup fs (q @ [s])")
    case None
    with 2 show ?thesis by auto
  next
    case (Some a)
    with 2 show ?thesis by (cases a) auto
  qed
qed


lemma strict_prefix_butlast: "strict_prefix p q \<Longrightarrow> prefix p (butlast q)"
  by (metis append_butlast_last_id prefix_bot.extremum_strict prefix_order.less_le prefix_snoc)

lemma wf_ancestors:
  "wf_fs fs \<Longrightarrow> (q, e) \<in> set fs \<Longrightarrow> strict_prefix p q \<Longrightarrow> lookup fs p = Some Directory"
proof (induction "length q" arbitrary: q e rule: less_induct)
  case less
  from less.prems(1,2) have q: "q \<noteq> []" and par: "lookup fs (butlast q) = Some Directory"
    by (auto simp: wf_fs_def)
  from less.prems(3) have pb: "prefix p (butlast q)" by (rule strict_prefix_butlast)
  show ?case
  proof (cases "p = butlast q")
    case True with par show ?thesis by simp
  next
    case False
    with pb have sp: "strict_prefix p (butlast q)" by (simp add: strict_prefix_def)
    then have "butlast q \<noteq> []" by auto
    with par have "(butlast q, Directory) \<in> set fs"
      by (auto simp: lookup_def dest: map_of_SomeD)
    moreover have "length (butlast q) < length q" using q by simp
    ultimately show ?thesis using less.hyps less.prems(1) sp by blast
  qed
qed

lemma wf_absent_no_below: "wf_fs fs \<Longrightarrow> lookup fs d = None \<Longrightarrow> no_below fs d"
  unfolding no_below_def using wf_ancestors by fastforce

lemma mkdirSync_no_below:
  assumes "mkdirSync fs d = Inr fs'" "no_below fs d"
  shows "no_below fs' d"
  unfolding no_below_def
proof clarify
  fix q e assume "(q, e) \<in> set fs'" "strict_prefix d q"
  with mkdir_from_rows[OF assms(1)[unfolded mkdirSync_def], of q e] assms(2)
  show False by (auto simp: no_below_def)
qed

lemma mkdirSync_dir: "mkdirSync fs d = Inr fs' \<Longrightarrow> lookup fs' d = Some Directory"
  using mkdir_from_reaches[of fs "[]" d fs'] by (simp add: mkdirSync_def lookup_def)

lemma rmSync_no_below: "rmSync fs d = Inr fs' \<Longrightarrow> no_below fs' d"
  by (auto simp: rmSync_def no_below_def split: if_splits)

lemma clearDirectory_result:
  assumes "clearDirectory n fs d = Some (Inr fs')" "wf_fs fs"
  shows "lookup fs' d = Some Directory \<and> no_below fs' d"
proof (cases n)
  case 0 with assms show ?thesis by simp
next
  case (Suc m)
  show ?thesis
  proof (cases "existsSync fs d")
    case True
    with assms(1) Suc obtain fs2 where "no_below fs2 d" "mkdirSync fs2 d = Inr fs'"
      by (auto split: sum.splits option.splits dest: rmSync_no_below)
    then show ?thesis using mkdirSync_dir mkdirSync_no_below by blast
  next
    case False
    with assms(1) Suc have m: "mkdirSync fs d = Inr fs'" by simp
    from False have "lookup fs d = None" by (simp add: existsSync_def)
    with assms(2) have "no_below fs d" by (rule wf_absent_no_below)
    with m show ?thesis using mkdirSync_dir mkdirSync_no_below by blast
  qed
qed


lemma map_of_filter_keep: "P k \<Longrightarrow> map_of (filter (\<lambda>(q, e). P q) fs) k = map_of fs k"
  by (induction fs) auto

lemma map_of_filter_drop: "\<not> P k \<Longrightarrow> map_of (filter (\<lambda>(q, e). P q) fs) k = None"
  by (induction fs) auto

lemma mkdir_from_prefixes:
  "mkdir_from fs q ss = Inr fs' \<Longrightarrow> lookup fs q = Some Directory \<Longrightarrow>
   prefix q r \<Longrightarrow> prefix r (q @ ss) \<Longrightarrow> lookup fs' r = Some Directory"
proof (induction fs q ss rule: mkdir_from.induct)
  case (1 fs q) then show ?case by (auto dest: prefix_order.antisym)
next
  case (2 fs q s ss)
  show ?case
  proof (cases "r = q")
    case True
    then show ?thesis using "2.prems"(1,2) lookup_mono_mkdir by blast
  next
    case False
    with "2.prems"(3,4) have pr: "prefix (q @ [s]) r"
      by (auto simp: prefix_def append_eq_append_conv2 Cons_eq_append_conv)
    show ?thesis
    proof (cases "lookup fs (q @ [s])")
      case None
      have "lookup (fs @ [(q @ [s], Directory)]) (q @ [s]) = Some Directory"
        using None by (auto simp: lookup_def map_add_def split: if_splits)
      with 2 None pr show ?thesis by simp
    next
      case (Some a)
      with 2 pr show ?thesis by (cases a) auto
    qed
  qed
qed

lemma mkdir_from_last:
  "ss \<noteq> [] \<Longrightarrow> lookup fs (q @ ss) = None \<Longrightarrow>
   (\<forall>r. prefix q r \<and> strict_prefix r (q @ ss) \<and> r \<noteq> q \<longrightarrow> lookup fs r = Some Directory) \<Longrightarrow>
   mkdir_from fs q ss = Inr (fs @ [(q @ ss, Directory)])"
proof (induction ss arbitrary: q)
  case Nil then show ?case by simp
next
  case (Cons s ss)
  show ?case
  proof (cases "ss = []")
    case True
    with Cons.prems show ?thesis by simp
  next
    case False
    have d: "lookup fs (q @ [s]) = Some Directory"
      using Cons.prems(3) False by (auto simp: strict_prefix_def)
    have "mkdir_from fs (q @ [s]) ss = Inr (fs @ [((q @ [s]) @ ss, Directory)])"
    proof (rule Cons.IH[OF False])
      show "lookup fs ((q @ [s]) @ ss) = None" using Cons.prems(2) by simp
      show "\<forall>r. prefix (q @ [s]) r \<and> strict_prefix r ((q @ [s]) @ ss) \<and> r \<noteq> q @ [s] \<longrightarrow>
              lookup fs r = Some Directory"
        using Cons.prems(3) by (auto simp: prefix_def)
    qed
    with d show ?thesis by simp
  qed
qed

lemma clearDirectory_root: "clearDirectory n fs [] \<noteq> Some (Inr fs')"
  by (cases n) (auto simp: existsSync_def lookup_def readdirSync_def rmSync_def
      split: sum.splits option.splits)

lemma clearDirectory_prefixes:
  assumes "clearDirectory n fs d = Some (Inr fs')" "prefix r d"
  shows "lookup fs' r = Some Directory"
proof -
  from assms(1) obtain fs0 where "mkdirSync fs0 d = Inr fs'"
    by (cases n) (auto split: sum.splits option.splits if_splits)
  then show ?thesis
    using mkdir_from_prefixes[of fs0 "[]" d fs' r] assms(2)
    by (simp add: mkdirSync_def lookup_def)
qed

lemma clearDirectory_again:
  assumes "clearDirectory n fs d = Some (Inr fs')" "wf_fs fs"
  shows "\<exists>fs''. clearDirectory n fs' d = Some (Inr fs'') \<and> (\<forall>p. lookup fs'' p = lookup fs' p)
           \<and> readdirSync fs'' d = Inr []"
proof -
  from assms(1) obtain m where n: "n = Suc m" by (cases n) auto
  from assms(1) have d: "d \<noteq> []" using clearDirectory_root by blast
  from clearDirectory_result[OF assms] have dir: "lookup fs' d = Some Directory"
    and nb: "no_below fs' d" by auto
  let ?fs2 = "filter (\<lambda>(q, e). \<not> prefix d q) fs'"
  have l2: "lookup ?fs2 p = (if prefix d p then None else lookup fs' p)" for p
    using d by (auto simp: lookup_def map_of_filter_keep map_of_filter_drop)
  have mk: "mkdir_from ?fs2 [] d = Inr (?fs2 @ [([] @ d, Directory)])"
  proof (rule mkdir_from_last[OF d])
    show "lookup ?fs2 ([] @ d) = None" by (simp add: l2)
    show "\<forall>r. prefix [] r \<and> strict_prefix r ([] @ d) \<and> r \<noteq> [] \<longrightarrow> lookup ?fs2 r = Some Directory"
      using clearDirectory_prefixes[OF assms(1)] by (auto simp: l2 strict_prefix_def)
  qed
  let ?fs3 = "?fs2 @ [(d, Directory)]"
  have again: "clearDirectory n fs' d = Some (Inr ?fs3)"
    using dir d mk by (simp add: n existsSync_def readdirSync_def children_no_below[OF nb]
        rmSync_def mkdirSync_def)
  have below: "lookup fs' p = None" if "strict_prefix d p" for p
  proof -
    from that nb have "p \<notin> fst ` set fs'" by (auto simp: no_below_def)
    moreover from that have "p \<noteq> []" by auto
    ultimately show ?thesis by (simp add: lookup_def map_of_eq_None_iff)
  qed
  have same: "lookup ?fs3 p = lookup fs' p" for p
  proof (cases "p = []")
    case True then show ?thesis by (simp add: lookup_def)
  next
    case False
    have "lookup ?fs3 p = (case lookup ?fs2 p of None \<Rightarrow> (if p = d then Some Directory else None)
        | Some e \<Rightarrow> Some e)"
      using False unfolding lookup_def by (simp add: map_add_def split: option.splits)
    then show ?thesis using dir below[of p] by (auto simp: l2 strict_prefix_def split: option.splits)
  qed
  have nb3: "no_below ?fs3 d" using nb by (auto simp: no_below_def)
  have "readdirSync ?fs3 d = Inr []"
    using dir by (simp add: readdirSync_def same children_no_below[OF nb3])
  with again same show ?thesis by blast
qed

subsection \<open>The fuel never runs out\<close>

lemma maxlen_row: "(q, e) \<in> set fs \<Longrightarrow> length q \<le> maxlen fs"
  by (induction fs rule: maxlen.induct) auto

lemma maxlen_bound: "(\<And>q e. (q, e) \<in> set fs \<Longrightarrow> length q \<le> k) \<Longrightarrow> maxlen fs \<le> k"
  by (induction fs rule: maxlen.induct) auto

lemma maxlen_filter: "maxlen (filter P fs) \<le> maxlen fs"
  by (rule maxlen_bound) (auto dest: maxlen_row)

lemma maxlen_mkdirSync:
  assumes "mkdirSync fs d = Inr fs'"
  shows "maxlen fs' \<le> max (maxlen fs) (length d)"
proof (rule maxlen_bound)
  fix q e assume "(q, e) \<in> set fs'"
  with mkdir_from_rows[OF assms[unfolded mkdirSync_def], of q e]
  show "length q \<le> max (maxlen fs) (length d)"
    by (auto dest: maxlen_row simp: prefix_def le_max_iff_disj)
qed

lemma lookup_Some_length: "lookup fs p = Some e \<Longrightarrow> length p \<le> maxlen fs"
  by (auto simp: lookup_def split: if_splits dest!: map_of_SomeD maxlen_row)



lemma clear_each_fuel:
  assumes "fuel_ok n"
  shows "maxlen fs \<le> n + length d \<Longrightarrow>
     \<exists>r. clear_each n fs d names = Some r \<and> (\<forall>fs'. r = Inr fs' \<longrightarrow> maxlen fs' \<le> maxlen fs)"
proof (induction names arbitrary: fs)
  case Nil then show ?case by simp
next
  case (Cons nm rest)
  let ?cur = "d @ [nm]"
  show ?case
  proof (cases "lstat_isDirectory fs ?cur")
    case (Inl e) then show ?thesis by simp
  next
    case (Inr b)
    then obtain en where en: "lookup fs ?cur = Some en"
      by (auto simp: lstat_isDirectory_def split: option.splits)
    then have len: "length d + 1 \<le> maxlen fs" using lookup_Some_length by fastforce
    show ?thesis
    proof (cases b)
      case True
      from len Cons.prems have "0 < n \<and> maxlen fs < n + length ?cur" by simp
      with assms obtain r where r: "clearDirectory n fs ?cur = Some r"
        and rb: "\<And>fs'. r = Inr fs' \<Longrightarrow> maxlen fs' \<le> max (maxlen fs) (length ?cur)"
        unfolding fuel_ok_def by blast
      show ?thesis
      proof (cases r)
        case (Inl e) with r Inr True show ?thesis by simp
      next
        case (Inr fs1)
        with rb len have m1: "maxlen fs1 \<le> maxlen fs" by fastforce
        with Cons.prems have "maxlen fs1 \<le> n + length d" by simp
        from Cons.IH[OF this] obtain r2 where "clear_each n fs1 d rest = Some r2"
          "\<forall>fs'. r2 = Inr fs' \<longrightarrow> maxlen fs' \<le> maxlen fs1" by blast
        with m1 r Inr \<open>lstat_isDirectory fs ?cur = Inr b\<close> True show ?thesis
          by (auto intro: order_trans)
      qed
    next
      case False
      show ?thesis
      proof (cases "unlinkSync fs ?cur")
        case (Inl e) with Inr False show ?thesis by simp
      next
        case (Inr fs1)
        then have m1: "maxlen fs1 \<le> maxlen fs"
          by (auto simp: unlinkSync_def maxlen_filter split: option.splits entry.splits)
        with Cons.prems have "maxlen fs1 \<le> n + length d" by simp
        from Cons.IH[OF this] obtain r2 where "clear_each n fs1 d rest = Some r2"
          "\<forall>fs'. r2 = Inr fs' \<longrightarrow> maxlen fs' \<le> maxlen fs1" by blast
        with m1 Inr \<open>lstat_isDirectory fs ?cur = Inr b\<close> False show ?thesis
          by (auto intro: order_trans)
      qed
    qed
  qed
qed

lemma fuel_ok_all: "fuel_ok n"
proof (induction n)
  case 0 show ?case by (simp add: fuel_ok_def)
next
  case (Suc n)
  show ?case unfolding fuel_ok_def
  proof (intro allI impI)
    fix fs :: filesys and d :: path assume a: "0 < Suc n \<and> maxlen fs < Suc n + length d"
    have mk: "\<exists>r. Some (mkdirSync fs0 d) = Some r \<and>
        (\<forall>fs'. r = Inr fs' \<longrightarrow> maxlen fs' \<le> max (maxlen fs) (length d))"
      if "maxlen fs0 \<le> maxlen fs" for fs0
      using maxlen_mkdirSync[of fs0 d] that by fastforce
    show "\<exists>r. clearDirectory (Suc n) fs d = Some r \<and>
          (\<forall>fs'. r = Inr fs' \<longrightarrow> maxlen fs' \<le> max (maxlen fs) (length d))"
    proof (cases "existsSync fs d")
      case False
      with mk[of fs] show ?thesis by simp
    next
      case True
      show ?thesis
      proof (cases "readdirSync fs d")
        case (Inl e) with True show ?thesis by simp
      next
        case (Inr names)
        from a have "maxlen fs \<le> n + length d" by simp
        from clear_each_fuel[OF Suc this, of names] obtain r1 where
          r1: "clear_each n fs d names = Some r1"
          and b1: "\<And>fs'. r1 = Inr fs' \<Longrightarrow> maxlen fs' \<le> maxlen fs" by blast
        show ?thesis
        proof (cases r1)
          case (Inl e) with True Inr r1 show ?thesis by simp
        next
          case fs1: (Inr fs1)
          show ?thesis
          proof (cases "rmSync fs1 d")
            case (Inl e) with True Inr r1 fs1 show ?thesis by simp
          next
            case fs2: (Inr fs2)
            then have "maxlen fs2 \<le> maxlen fs1"
              by (auto simp: rmSync_def maxlen_filter split: if_splits)
            with b1[OF fs1] have "maxlen fs2 \<le> maxlen fs" by simp
            from mk[OF this] True Inr r1 fs1 fs2 show ?thesis by simp
          qed
        qed
      qed
    qed
  qed
qed

lemma clearDirectory_enough_fuel: "\<exists>r. clearDirectory (Suc (maxlen fs)) fs d = Some r"
proof -
  have "0 < Suc (maxlen fs) \<and> maxlen fs < Suc (maxlen fs) + length d" by simp
  with fuel_ok_all[of "Suc (maxlen fs)"] show ?thesis unfolding fuel_ok_def by blast
qed

subsection \<open>The Directory Stager returns\<close>

text \<open>
  On a file system, \<^verbatim>\<open>clearDirectory\<close> returns for every path below the root that has no
  file on its way: for a directory that exists, whatever files and directories are nested
  in it, and for a path that does not exist yet.
\<close>

lemma lookup_row: "distinct (map fst fs) \<Longrightarrow> (q, e) \<in> set fs \<Longrightarrow> q \<noteq> [] \<Longrightarrow> lookup fs q = Some e"
  by (simp add: lookup_def)

lemma lookup_filter_keys:
  "lookup (filter (\<lambda>(q, e). P q) fs) p = (if p = [] \<or> P p then lookup fs p else None)"
  by (auto simp: lookup_def map_of_filter_keep map_of_filter_drop)

lemma distinct_filter_keys: "distinct (map fst fs) \<Longrightarrow> distinct (map fst (filter P fs))"
  by (simp add: distinct_map_filter)

lemma unlink_wfd:
  assumes "wfd fs" "lookup fs p = Some (File b)"
  shows "wfd (filter (\<lambda>(q, e). q \<noteq> p) fs)"
proof -
  have p: "p \<noteq> []" using assms(2) by (auto simp: lookup_def)
  have "lookup (filter (\<lambda>(q, e). q \<noteq> p) fs) (butlast q) = Some Directory \<and> q \<noteq> []"
    if "(q, e) \<in> set fs" for q e
  proof -
    from that assms(1) have q: "q \<noteq> []" "lookup fs (butlast q) = Some Directory"
      by (auto simp: wfd_def wf_fs_def)
    with assms(2) have "butlast q \<noteq> p" by auto
    with q show ?thesis by (simp add: lookup_filter_keys)
  qed
  then show ?thesis using assms(1) by (auto simp: wfd_def wf_fs_def distinct_filter_keys)
qed

lemma rm_wfd:
  assumes "wfd fs"
  shows "wfd (filter (\<lambda>(q, e). \<not> prefix d q) fs)"
proof -
  have "lookup (filter (\<lambda>(q, e). \<not> prefix d q) fs) (butlast q) = Some Directory \<and> q \<noteq> []"
    if "(q, e) \<in> set fs" "\<not> prefix d q" for q e
  proof -
    from that assms(1) have q: "q \<noteq> []" "lookup fs (butlast q) = Some Directory"
      by (auto simp: wfd_def wf_fs_def)
    have "\<not> prefix d (butlast q)" using that(2) by (meson prefix_order.trans prefixeq_butlast)
    with q show ?thesis by (simp add: lookup_filter_keys)
  qed
  then show ?thesis using assms(1) by (auto simp: wfd_def wf_fs_def distinct_filter_keys)
qed

lemma append_dir_wfd:
  assumes "wfd fs" "lookup fs d = None" "lookup fs (butlast d) = Some Directory"
  shows "wfd (fs @ [(d, Directory)])"
proof -
  have d: "d \<noteq> []" using assms(2) by (auto simp: lookup_def)
  have nk: "d \<notin> fst ` set fs" using assms(2) d by (simp add: lookup_def map_of_eq_None_iff)
  have l: "lookup (fs @ [(d, Directory)]) q = Some Directory" if "lookup fs q = Some Directory" for q
    using that by (auto simp: lookup_def map_add_def split: if_splits)
  show ?thesis using assms(1,3) d nk l
    by (auto simp: wfd_def wf_fs_def)
qed


lemma lookup_append_row:
  "lookup fs d = None \<Longrightarrow> lookup (fs @ [(d, en)]) q = (if q = d then Some en else lookup fs q)"
  by (auto simp: lookup_def map_add_def split: if_splits option.splits)

lemma sibling_not_prefix: "x \<noteq> y \<Longrightarrow> \<not> prefix (d @ [x]) (d @ [y])"
  by (auto simp: prefix_def)

lemma child_strict: "prefix (d @ [x]) q \<Longrightarrow> strict_prefix d q"
  by (auto simp: prefix_def strict_prefix_def)

lemma clear_each_ok:
  assumes "clears_ok n"
  shows "wfd fs \<Longrightarrow> lookup fs d = Some Directory \<Longrightarrow> distinct names \<Longrightarrow>
     \<forall>x \<in> set names. lookup fs (d @ [x]) \<noteq> None \<Longrightarrow> maxlen fs \<le> n + length d \<Longrightarrow>
     \<exists>fs'. clear_each n fs d names = Some (Inr fs') \<and> wfd fs' \<and> maxlen fs' \<le> maxlen fs \<and>
           (\<forall>q. \<not> strict_prefix d q \<longrightarrow> lookup fs' q = lookup fs q)"
proof (induction names arbitrary: fs)
  case Nil then show ?case by simp
next
  case (Cons x rest)
  let ?cur = "d @ [x]"
  from Cons.prems(4) obtain en where en: "lookup fs ?cur = Some en" by auto
  have nd: "\<not> strict_prefix d d" by simp
  show ?case
  proof (cases en)
    case Directory
    have "maxlen fs < n + length ?cur" using Cons.prems(5) by simp
    with assms Cons.prems(1) en Directory obtain fs1 where
      c: "clearDirectory n fs ?cur = Some (Inr fs1)" and w1: "wfd fs1"
      and m1: "maxlen fs1 \<le> maxlen fs"
      and f1: "\<And>q. \<not> prefix ?cur q \<Longrightarrow> lookup fs1 q = lookup fs q"
      unfolding clears_ok_def by (metis snoc_eq_iff_butlast)
    have d1: "lookup fs1 d = Some Directory" using f1[of d] Cons.prems(2) by (simp add: prefix_def)
    have r1: "\<forall>y \<in> set rest. lookup fs1 (d @ [y]) \<noteq> None"
    proof
      fix y assume y: "y \<in> set rest"
      with Cons.prems(3) have "x \<noteq> y" by auto
      then have "lookup fs1 (d @ [y]) = lookup fs (d @ [y])" by (intro f1 sibling_not_prefix)
      with Cons.prems(4) y show "lookup fs1 (d @ [y]) \<noteq> None" by simp
    qed
    from Cons.IH[OF w1 d1 _ r1] Cons.prems(3,5) m1 obtain fs' where
      e: "clear_each n fs1 d rest = Some (Inr fs')" and w: "wfd fs'" and m: "maxlen fs' \<le> maxlen fs1"
      and f: "\<And>q. \<not> strict_prefix d q \<Longrightarrow> lookup fs' q = lookup fs1 q" by auto
    have "lookup fs' q = lookup fs q" if "\<not> strict_prefix d q" for q
    proof -
      from that have "\<not> prefix ?cur q" by (auto dest: child_strict)
      with f[OF that] f1[of q] show ?thesis by simp
    qed
    with c e w m m1 en Directory show ?thesis
      by (auto simp: lstat_isDirectory_def)
  next
    case (File b)
    let ?fs1 = "filter (\<lambda>(q, e). q \<noteq> ?cur) fs"
    have u: "unlinkSync fs ?cur = Inr ?fs1" using en File by (simp add: unlinkSync_def)
    have w1: "wfd ?fs1" using unlink_wfd[OF Cons.prems(1)] en File by simp
    have m1: "maxlen ?fs1 \<le> maxlen fs" by (rule maxlen_filter)
    have f1: "lookup ?fs1 q = lookup fs q" if "q \<noteq> ?cur" for q
      using that by (simp add: lookup_filter_keys[where P = "\<lambda>q. q \<noteq> ?cur"])
    have d1: "lookup ?fs1 d = Some Directory" using f1[of d] Cons.prems(2) by simp
    have r1: "\<forall>y \<in> set rest. lookup ?fs1 (d @ [y]) \<noteq> None"
    proof
      fix y assume y: "y \<in> set rest"
      with Cons.prems(3) have "d @ [y] \<noteq> ?cur" by auto
      then have "lookup ?fs1 (d @ [y]) = lookup fs (d @ [y])" by (rule f1)
      with Cons.prems(4) y show "lookup ?fs1 (d @ [y]) \<noteq> None" by simp
    qed
    from Cons.IH[OF w1 d1 _ r1] Cons.prems(3,5) m1 obtain fs' where
      e: "clear_each n ?fs1 d rest = Some (Inr fs')" and w: "wfd fs'" and m: "maxlen fs' \<le> maxlen ?fs1"
      and f: "\<And>q. \<not> strict_prefix d q \<Longrightarrow> lookup fs' q = lookup ?fs1 q" by auto
    have "lookup fs' q = lookup fs q" if "\<not> strict_prefix d q" for q
    proof -
      from that have "q \<noteq> ?cur" by (auto simp: strict_prefix_def)
      with f[OF that] f1 show ?thesis by simp
    qed
    with u e w m m1 en File show ?thesis
      by (auto simp: lstat_isDirectory_def)
  qed
qed

lemma children_distinct:
  assumes "distinct (map fst fs)"
  shows "distinct (children fs d)"
proof -
  have "inj_on (last \<circ> fst) (set (filter (\<lambda>(q, e). q \<noteq> [] \<and> butlast q = d) fs))"
  proof (rule inj_onI)
    fix a b assume a: "a \<in> set (filter (\<lambda>(q, e). q \<noteq> [] \<and> butlast q = d) fs)"
      and b: "b \<in> set (filter (\<lambda>(q, e). q \<noteq> [] \<and> butlast q = d) fs)"
      and eq: "(last \<circ> fst) a = (last \<circ> fst) b"
    from a b have "fst a \<noteq> []" "fst b \<noteq> []" "butlast (fst a) = butlast (fst b)"
      by (auto simp: case_prod_beta)
    with eq have "fst a = fst b" by (metis append_butlast_last_id comp_apply)
    moreover from a b have "a \<in> set fs" "b \<in> set fs" by simp_all
    ultimately show "a = b" using assms
      by (metis eq_key_imp_eq_value prod.collapse)
  qed
  moreover have "distinct (filter (\<lambda>(q, e). q \<noteq> [] \<and> butlast q = d) fs)"
    using assms by (simp add: distinct_map)
  ultimately show ?thesis by (simp add: children_def distinct_map)
qed

lemma children_exist:
  assumes "distinct (map fst fs)" "x \<in> set (children fs d)"
  shows "lookup fs (d @ [x]) \<noteq> None"
proof -
  from assms(2) obtain q e where "(q, e) \<in> set fs" "q \<noteq> []" "butlast q = d" "x = last q"
    by (auto simp: children_def)
  then have "(d @ [x], e) \<in> set fs" by (metis append_butlast_last_id)
  with assms(1) show ?thesis using lookup_row by fastforce
qed


lemma clears_ok_all: "clears_ok n"
proof (induction n)
  case 0 show ?case using lookup_Some_length by (fastforce simp: clears_ok_def)
next
  case (Suc n)
  show ?case unfolding clears_ok_def
  proof (intro allI impI)
    fix fs :: filesys and d :: path
    assume a: "wfd fs \<and> d \<noteq> [] \<and> lookup fs d = Some Directory \<and> maxlen fs < Suc n + length d"
    then have w: "wfd fs" and d: "d \<noteq> []" and dir: "lookup fs d = Some Directory"
      and ml: "maxlen fs \<le> n + length d" by auto
    from w have dist: "distinct (map fst fs)" and wf: "wf_fs fs" by (simp_all add: wfd_def)
    from dir d have row: "(d, Directory) \<in> set fs" by (auto simp: lookup_def dest: map_of_SomeD)
    have rd: "readdirSync fs d = Inr (children fs d)" using dir by (simp add: readdirSync_def)
    have ex: "\<forall>x \<in> set (children fs d). lookup fs (d @ [x]) \<noteq> None"
      using children_exist[OF dist] by blast
    from clear_each_ok[OF Suc w dir children_distinct[OF dist, of d] ex ml]
    obtain fs1 where e: "clear_each n fs d (children fs d) = Some (Inr fs1)" and w1: "wfd fs1"
      and m1: "maxlen fs1 \<le> maxlen fs"
      and f1: "\<And>q. \<not> strict_prefix d q \<Longrightarrow> lookup fs1 q = lookup fs q" by blast
    let ?fs2 = "filter (\<lambda>(q, e). \<not> prefix d q) fs1"
    have rm: "rmSync fs1 d = Inr ?fs2" using d by (simp add: rmSync_def)
    have w2: "wfd ?fs2" by (rule rm_wfd[OF w1])
    have l2: "lookup ?fs2 q = (if prefix d q then None else lookup fs q)" for q
    proof (cases "prefix d q")
      case True
      with d have "q \<noteq> []" by auto
      with True show ?thesis by (simp add: lookup_filter_keys[where P = "\<lambda>q. \<not> prefix d q"])
    next
      case False
      then have "\<not> strict_prefix d q" by (simp add: strict_prefix_def)
      with False f1[of q] show ?thesis
        by (simp add: lookup_filter_keys[where P = "\<lambda>q. \<not> prefix d q"])
    qed
    have anc: "lookup fs r = Some Directory" if "strict_prefix r d" for r
      using wf_ancestors[OF wf row that] .
    have mk: "mkdir_from ?fs2 [] d = Inr (?fs2 @ [([] @ d, Directory)])"
    proof (rule mkdir_from_last[OF d])
      show "lookup ?fs2 ([] @ d) = None" by (simp add: l2)
      show "\<forall>r. prefix [] r \<and> strict_prefix r ([] @ d) \<and> r \<noteq> [] \<longrightarrow> lookup ?fs2 r = Some Directory"
        using anc by (auto simp: l2 strict_prefix_def dest: prefix_order.antisym)
    qed
    let ?fs' = "?fs2 @ [(d, Directory)]"
    have c: "clearDirectory (Suc n) fs d = Some (Inr ?fs')"
      using dir rd e rm mk by (simp add: existsSync_def mkdirSync_def)
    have par: "lookup ?fs2 (butlast d) = Some Directory"
    proof -
      have "strict_prefix (butlast d) d" using d by (metis append_butlast_last_id append_Nil2 not_Cons_self2 prefixI same_append_eq strict_prefix_def)
      then show ?thesis using anc by (auto simp: l2 strict_prefix_def dest: prefix_order.antisym)
    qed
    have w': "wfd ?fs'" by (rule append_dir_wfd[OF w2 _ par]) (simp add: l2)
    have m': "maxlen ?fs' \<le> maxlen fs"
    proof (rule maxlen_bound)
      fix q e assume "(q, e) \<in> set ?fs'"
      then have "(q, e) \<in> set fs1 \<or> q = d" by auto
      then show "length q \<le> maxlen fs" using maxlen_row[of q e fs1] m1 maxlen_row[OF row] by auto
    qed
    have l': "lookup ?fs' q = (if q = d then Some Directory else lookup ?fs2 q)" for q
      by (rule lookup_append_row) (simp add: l2)
    have "\<forall>q. \<not> prefix d q \<longrightarrow> lookup ?fs' q = lookup fs q"
      by (auto simp: l' l2)
    moreover have "lookup ?fs' d = Some Directory" by (simp add: l')
    ultimately show "\<exists>fs'. clearDirectory (Suc n) fs d = Some (Inr fs') \<and> wfd fs' \<and>
        maxlen fs' \<le> maxlen fs \<and> (\<forall>q. \<not> prefix d q \<longrightarrow> lookup fs' q = lookup fs q) \<and>
        lookup fs' d = Some Directory"
      using c w' m' by blast
  qed
qed

lemma mkdir_from_succeeds:
  "\<forall>r b. prefix q r \<and> prefix r (q @ ss) \<longrightarrow> lookup fs r \<noteq> Some (File b) \<Longrightarrow>
     \<exists>fs'. mkdir_from fs q ss = Inr fs'"
proof (induction ss arbitrary: fs q)
  case Nil show ?case by simp
next
  case (Cons s ss)
  have nf: "lookup fs (q @ [s]) \<noteq> Some (File b)" for b
    using Cons.prems by (auto simp: prefix_def)
  show ?case
  proof (cases "lookup fs (q @ [s])")
    case None
    let ?fs1 = "fs @ [(q @ [s], Directory)]"
    have "\<forall>r b. prefix (q @ [s]) r \<and> prefix r ((q @ [s]) @ ss) \<longrightarrow> lookup ?fs1 r \<noteq> Some (File b)"
    proof (intro allI impI)
      fix r b assume r: "prefix (q @ [s]) r \<and> prefix r ((q @ [s]) @ ss)"
      then have "prefix q r \<and> prefix r (q @ s # ss)" by (auto simp: prefix_def)
      with Cons.prems have "lookup fs r \<noteq> Some (File b)" by blast
      then show "lookup ?fs1 r \<noteq> Some (File b)"
        by (auto simp: lookup_def map_add_def split: if_splits option.splits)
    qed
    from Cons.IH[OF this] None show ?thesis by simp
  next
    case (Some en)
    with nf have en: "en = Directory" by (cases en) auto
    have "\<forall>r b. prefix (q @ [s]) r \<and> prefix r ((q @ [s]) @ ss) \<longrightarrow> lookup fs r \<noteq> Some (File b)"
      using Cons.prems by (auto simp: prefix_def)
    from Cons.IH[OF this] Some en show ?thesis by simp
  qed
qed

lemma clearDirectory_returns:
  assumes "wf_fs fs" "distinct (map fst fs)" "d \<noteq> []"
    and "\<forall>r b. prefix r d \<longrightarrow> lookup fs r \<noteq> Some (File b)"
  shows "\<exists>fs'. clearDirectory (Suc (maxlen fs)) fs d = Some (Inr fs')"
proof (cases "lookup fs d")
  case None
  from mkdir_from_succeeds[of "[]" d fs] assms(4) obtain fs' where "mkdirSync fs d = Inr fs'"
    by (auto simp: mkdirSync_def)
  with None show ?thesis by (simp add: existsSync_def)
next
  case (Some en)
  with assms(4) have "lookup fs d = Some Directory" by (cases en) auto
  moreover have "wfd fs" using assms(1,2) by (simp add: wfd_def)
  moreover have "maxlen fs < Suc (maxlen fs) + length d" by simp
  ultimately show ?thesis using clears_ok_all[of "Suc (maxlen fs)"] assms(3)
    unfolding clears_ok_def by blast
qed

section \<open>The Directory Stager leaves an empty directory\<close>

text \<open>
  C8. Whenever \<^verbatim>\<open>clearDirectory\<close> returns, whether or not the path existed before and
  whatever lay below it, the path is a directory and lists no entry. Calling it again on
  the state it left returns as well, and leaves every path with the entry it had: the same
  empty directory.
\<close>

theorem clearDirectory_leaves_empty_directory:
  assumes "wf_fs fs" and "clearDirectory n fs d = Some (Inr fs')"
  shows "lookup fs' d = Some Directory \<and> readdirSync fs' d = Inr [] \<and>
         (\<exists>fs''. clearDirectory n fs' d = Some (Inr fs'') \<and>
                 (\<forall>p. lookup fs'' p = lookup fs' p) \<and> readdirSync fs'' d = Inr [])"
proof -
  from clearDirectory_result[OF assms(2,1)]
  have dir: "lookup fs' d = Some Directory" and nb: "no_below fs' d" by auto
  then have "readdirSync fs' d = Inr []"
    by (simp add: readdirSync_def children_no_below)
  with dir clearDirectory_again[OF assms(2,1)] show ?thesis by blast
qed

theorem clearDirectory_leaves_empty_directory_witness:
  "wf_fs example_fs \<and>
   clearDirectory 3 example_fs [''tmp'', ''a''] =
     Some (Inr [([''tmp''], Directory), ([''tmp'', ''keep''], File (OtherBytes ''k'')),
                ([''tmp'', ''a''], Directory)]) \<and>
   readdirSync [([''tmp''], Directory), ([''tmp'', ''keep''], File (OtherBytes ''k'')),
                ([''tmp'', ''a''], Directory)] [''tmp'', ''a''] = Inr [] \<and>
   (\<exists>fs''. clearDirectory 3 [([''tmp''], Directory), ([''tmp'', ''keep''], File (OtherBytes ''k'')),
                ([''tmp'', ''a''], Directory)] [''tmp'', ''a''] = Some (Inr fs'') \<and>
      readdirSync fs'' [''tmp'', ''a''] = Inr [])"
proof -
  have w: "wf_fs example_fs"
    by (simp add: wf_fs_def example_fs_def lookup_def)
  have c: "clearDirectory 3 example_fs [''tmp'', ''a''] =
     Some (Inr [([''tmp''], Directory), ([''tmp'', ''keep''], File (OtherBytes ''k'')),
                ([''tmp'', ''a''], Directory)])"
    by code_simp
  from clearDirectory_leaves_empty_directory[OF w c] w c show ?thesis by blast
qed

section \<open>Merging keeps the order of files and pages\<close>









section \<open>The Invoice Lister\<close>

lemma route_each_filter:
  "route_each d acc =
     (fst acc @ map pdfLink (filter (\<lambda>i. isPaidOrOpen (inv_status i)) d),
      snd acc @ map pdfLink (filter (\<lambda>i. \<not> isPaidOrOpen (inv_status i)) d))"
  by (induction d acc rule: route_each.induct) auto

lemma route_each_append: "route_each (d @ later) acc = route_each later (route_each d acc)"
  by (simp add: route_each_filter)

lemma last_id_nonempty: "d \<noteq> [] \<Longrightarrow> last_id d = Inr (inv_id (last d))"
  by (simp add: last_id_def last_conv_nth)

lemma list_loop_returned:
  assumes "list_loop stripe gte lte starting_after acc w = Some y"
  shows "\<forall>r w'. y = (Inr r, w') \<longrightarrow>
           (\<exists>all. returned_invoices stripe gte lte starting_after (list_calls w) = Some all \<and>
                  r = route_each all acc)"
proof (rule list_loop.raw_induct[where P = "\<lambda>stripe gte lte starting_after acc w y.
    \<forall>r w'. y = (Inr r, w') \<longrightarrow>
           (\<exists>all. returned_invoices stripe gte lte starting_after (list_calls w) = Some all \<and>
                  r = route_each all acc)", OF _ assms], goal_cases)
  case (1 list_loop stripe gte lte starting_after acc w y)
  show ?case
  proof (cases "stripe (list_calls w) starting_after gte lte")
    case (Inl msg)
    with 1(2) show ?thesis by auto
  next
    case (Inr invoices)
    show ?thesis
    proof (cases "data invoices")
      case None
      with Inr 1(2) show ?thesis
        by (subst returned_invoices.simps) (auto simp: Let_def)
    next
      case (Some d)
      show ?thesis
      proof (cases "d = []")
        case True
        with Inr Some 1(2) show ?thesis
          by (subst returned_invoices.simps) (auto simp: Let_def)
      next
        case False
        note ne = False
        show ?thesis
        proof (cases "has_more invoices")
          case False
          with Inr Some ne 1(2) show ?thesis
            by (subst returned_invoices.simps) (auto simp: Let_def last_id_nonempty)
        next
          case True
          with Inr Some ne 1(2) have rec:
            "list_loop stripe gte lte (Some (inv_id (last d))) (route_each d acc)
               (w\<lparr>list_calls := list_calls w + 1\<rparr>) = Some y"
            by (simp add: Let_def last_id_nonempty)
          show ?thesis
          proof (intro allI impI)
            fix r w' assume y: "y = (Inr r, w')"
            from 1(1)[OF rec] y obtain later where
              l: "returned_invoices stripe gte lte (Some (inv_id (last d))) (list_calls w + 1) = Some later"
              and r: "r = route_each later (route_each d acc)" by auto
            have "returned_invoices stripe gte lte starting_after (list_calls w) = Some (d @ later)"
              using Inr Some ne True l by (subst returned_invoices.simps) simp
            with r show "\<exists>all. returned_invoices stripe gte lte starting_after (list_calls w) = Some all \<and>
                  r = route_each all acc"
              by (simp add: route_each_append)
          qed
        qed
      qed
    qed
  qed
qed

lemma list_loop_errors:
  assumes "list_loop stripe gte lte starting_after acc w = Some y"
  shows "\<forall>err w'. y = (Inl err, w') \<longrightarrow> (\<exists>msg. err = ProviderError msg)"
proof (rule list_loop.raw_induct[where P = "\<lambda>stripe gte lte starting_after acc w y.
    \<forall>err w'. y = (Inl err, w') \<longrightarrow> (\<exists>msg. err = ProviderError msg)", OF _ assms], goal_cases)
  case (1 list_loop stripe gte lte starting_after acc w y)
  show ?case
  proof (cases "stripe (list_calls w) starting_after gte lte")
    case (Inl msg)
    with 1(2) show ?thesis by auto
  next
    case (Inr invoices)
    show ?thesis
    proof (cases "data invoices")
      case None
      with Inr 1(2) show ?thesis by (auto simp: Let_def)
    next
      case (Some d)
      show ?thesis
      proof (cases "d = []")
        case True
        with Inr Some 1(2) show ?thesis by (auto simp: Let_def)
      next
        case False
        with Inr Some 1 show ?thesis
          by (cases "has_more invoices") (auto simp: Let_def last_id_nonempty)
      qed
    qed
  qed
qed

text \<open>
  C4. Whenever \<^verbatim>\<open>getInvoicesList\<close> returns its two lists, they are the links of the
  invoices that the provider returned on its pages: the first list holds those whose
  status is \<^verbatim>\<open>paid\<close> or \<^verbatim>\<open>open\<close>, the second list all the others, and each list is
  in the order in which the provider returned the invoices.
\<close>

theorem getInvoicesList_partitions_by_status:
  assumes "getInvoicesList stripe gte lte w = Some (Inr (paidAndOpenLinks, otherStatusLinks), w')"
  shows "\<exists>all. returned_invoices stripe gte lte None (list_calls w) = Some all \<and>
     paidAndOpenLinks =
       map pdfLink (filter (\<lambda>i. inv_status i = ''paid'' \<or> inv_status i = ''open'') all) \<and>
     otherStatusLinks =
       map pdfLink (filter (\<lambda>i. \<not> (inv_status i = ''paid'' \<or> inv_status i = ''open'')) all)"
proof -
  from assms obtain y where y: "list_loop stripe gte lte None ([], []) w = Some y"
    and yr: "y = (Inr (paidAndOpenLinks, otherStatusLinks), w')"
    by (auto simp: getInvoicesList_def split: option.splits sum.splits prod.splits)
  from list_loop_returned[OF y] yr obtain all where
    "returned_invoices stripe gte lte None (list_calls w) = Some all"
    "(paidAndOpenLinks, otherStatusLinks) = route_each all ([], [])" by blast
  then show ?thesis by (auto simp: route_each_filter isPaidOrOpen_def)
qed

theorem getInvoicesList_partitions_by_status_witness:
  "getInvoicesList example_stripe None None example_world =
     Some (Inr ([pdfLink inv_a, pdfLink inv_c], [pdfLink inv_b]), example_world\<lparr>list_calls := 2\<rparr>) \<and>
   (\<exists>all. returned_invoices example_stripe None None None (list_calls example_world) = Some all \<and>
     [pdfLink inv_a, pdfLink inv_c] =
       map pdfLink (filter (\<lambda>i. inv_status i = ''paid'' \<or> inv_status i = ''open'') all) \<and>
     [pdfLink inv_b] =
       map pdfLink (filter (\<lambda>i. \<not> (inv_status i = ''paid'' \<or> inv_status i = ''open'')) all))"
proof -
  have g: "getInvoicesList example_stripe None None example_world =
     Some (Inr ([pdfLink inv_a, pdfLink inv_c], [pdfLink inv_b]), example_world\<lparr>list_calls := 2\<rparr>)"
    by code_simp
  from getInvoicesList_partitions_by_status[OF g] g show ?thesis by blast
qed

text \<open>
  C9. A page without \<^verbatim>\<open>data\<close>, or with an empty array, ends the loop at once with the
  lists collected so far, after exactly that one call and whatever \<^verbatim>\<open>has_more\<close> says;
  and the loop never fails with the \<^verbatim>\<open>TypeError\<close> of reading the \<^verbatim>\<open>id\<close> of the last
  element of an empty array.
\<close>

theorem list_loop_guards_cursor:
  "(stripe (list_calls w) starting_after gte lte = Inr page \<and>
      (data page = None \<or> data page = Some []) \<longrightarrow>
      list_loop stripe gte lte starting_after acc w =
        Some (Inr acc, w\<lparr>list_calls := list_calls w + 1\<rparr>)) \<and>
   (\<forall>w'. list_loop stripe gte lte starting_after acc w \<noteq> Some (Inl TypeError, w'))"
proof
  show "stripe (list_calls w) starting_after gte lte = Inr page \<and>
      (data page = None \<or> data page = Some []) \<longrightarrow>
      list_loop stripe gte lte starting_after acc w =
        Some (Inr acc, w\<lparr>list_calls := list_calls w + 1\<rparr>)"
    by (subst list_loop.simps) (auto simp: Let_def)
  show "\<forall>w'. list_loop stripe gte lte starting_after acc w \<noteq> Some (Inl TypeError, w')"
    using list_loop_errors by blast
qed

theorem list_loop_guards_cursor_witness:
  "example_stripe (list_calls example_world) (Some ''in_9'') None None =
     Inr \<lparr>data = Some [], has_more = True\<rparr> \<and>
   list_loop example_stripe None None (Some ''in_9'') ([], []) example_world =
     Some (Inr ([], []), example_world\<lparr>list_calls := list_calls example_world + 1\<rparr>)"
proof -
  have p: "example_stripe (list_calls example_world) (Some ''in_9'') None None =
     Inr \<lparr>data = Some [], has_more = True\<rparr>"
    by (simp add: example_stripe_def)
  from list_loop_guards_cursor[of example_stripe example_world "Some ''in_9''" None None
      "\<lparr>data = Some [], has_more = True\<rparr>" "([], [])"] p
  show ?thesis by simp
qed

section \<open>The Resilient Fetcher retries five times and never rejects\<close>

lemma attempts_logged_append: "attempts_logged (xs @ ys) = attempts_logged xs + attempts_logged ys"
  by (simp add: attempts_logged_def)

lemma try_download_ok:
  "try_download e url dest w = (Inr u, w1) \<Longrightarrow>
     console w1 = console w @ [FileDownloaded dest] \<and> requests w1 = requests w + 1 \<and>
     \<not> fails_before_stream e url"
  by (auto simp: try_download_def log_def Let_def fails_before_stream_def
      split: option.splits if_splits get_result.splits sum.splits)
    (metis get_result.distinct(3))

lemma try_download_err:
  "try_download e url dest w = (Inl err, w1) \<Longrightarrow>
     console w1 = console w \<and> requests w1 \<le> requests w + 1 \<and>
     (fails_before_stream e url \<longrightarrow> files w1 = files w)"
  by (auto simp: try_download_def log_def Let_def fails_before_stream_def
      split: option.splits if_splits get_result.splits sum.splits)

lemma downloadWithRetry_from:
  assumes "1 \<le> a" "a \<le> 6"
  shows "\<exists>evs w'. downloadWithRetry e url dest a w = (Inr (), w') \<and>
      console w' = console w @ evs \<and> evs \<noteq> [] \<and>
      attempts_logged evs \<le> 7 - a \<and> requests w' \<le> requests w + (7 - a) \<and>
      (last evs = FileDownloaded dest \<or>
       attempts_logged evs = 7 - a \<and> last evs = FailedToDownload (invoice_number url) 6) \<and>
      (fails_before_stream e url \<longrightarrow>
         attempts_logged evs = 7 - a \<and> last evs = FailedToDownload (invoice_number url) 6 \<and>
         files w' = files w)"
  using assms
proof (induction "6 - a" arbitrary: a w)
  case 0
  then have a: "a = 6" by simp
  obtain r w1 where t: "try_download e url dest w = (r, w1)" by (cases "try_download e url dest w")
  show ?case
  proof (cases r)
    case (Inr u)
    with t try_download_ok[of e url dest w u w1] show ?thesis
      by (subst downloadWithRetry.simps) (auto simp: attempts_logged_def a)
  next
    case (Inl err)
    with t try_download_err[of e url dest w err w1] show ?thesis
      by (subst downloadWithRetry.simps) (auto simp: attempts_logged_def a log_def Let_def)
  qed
next
  case (Suc k)
  then have a: "a \<le> 5" "1 \<le> a" by simp_all
  obtain r w1 where t: "try_download e url dest w = (r, w1)" by (cases "try_download e url dest w")
  show ?case
  proof (cases r)
    case (Inr u)
    with t try_download_ok[of e url dest w u w1] a show ?thesis
      by (subst downloadWithRetry.simps) (auto simp: attempts_logged_def)
  next
    case (Inl err)
    let ?n = "invoice_number url"
    let ?w2 = "log (Retrying ?n a) (log (ErrorDownloading ?n err) w1)"
    from t Inl try_download_err[of e url dest w err w1]
    have c1: "console w1 = console w" and q1: "requests w1 \<le> requests w + 1"
      and f1: "fails_before_stream e url \<longrightarrow> files w1 = files w" by auto
    have k: "k = 6 - (a + 1)" using Suc.hyps(2) by simp
    from Suc.hyps(1)[OF k, of ?w2] a obtain evs w' where
      r: "downloadWithRetry e url dest (a + 1) ?w2 = (Inr (), w')"
      and c: "console w' = console ?w2 @ evs" and ne: "evs \<noteq> []"
      and at: "attempts_logged evs \<le> 7 - (a + 1)"
      and rq: "requests w' \<le> requests ?w2 + (7 - (a + 1))"
      and la: "last evs = FileDownloaded dest \<or>
         attempts_logged evs = 7 - (a + 1) \<and> last evs = FailedToDownload ?n 6"
      and fb: "fails_before_stream e url \<longrightarrow>
         attempts_logged evs = 7 - (a + 1) \<and> last evs = FailedToDownload ?n 6 \<and>
         files w' = files ?w2"
      by auto
    let ?evs = "[ErrorDownloading ?n err, Retrying ?n a] @ evs"
    have d: "downloadWithRetry e url dest a w = (Inr (), w')"
      using t Inl a r by (subst downloadWithRetry.simps) (simp add: Let_def)
    have at': "attempts_logged ?evs = 1 + attempts_logged evs"
      by (simp add: attempts_logged_def)
    have "console w' = console w @ ?evs" using c c1 by (simp add: log_def)
    moreover have "?evs \<noteq> []" by simp
    moreover have "attempts_logged ?evs \<le> 7 - a" using at a unfolding at' by simp
    moreover have "requests w' \<le> requests w + (7 - a)" using rq q1 a by (simp add: log_def)
    moreover have "last ?evs = FileDownloaded dest \<or>
       attempts_logged ?evs = 7 - a \<and> last ?evs = FailedToDownload ?n 6"
      using la ne a unfolding at' by auto
    moreover have "fails_before_stream e url \<longrightarrow>
         attempts_logged ?evs = 7 - a \<and> last ?evs = FailedToDownload ?n 6 \<and> files w' = files w"
      using fb f1 ne a unfolding at' by (auto simp: log_def)
    ultimately show ?thesis using d by blast
  qed
qed




section \<open>Placeholder or merge, for one category\<close>

lemma download_all_fulfilled:
  "\<exists>w'. download_all e tmpDir urls w = (Inr (), w') \<and>
        ((\<forall>url \<in> set urls. fails_before_stream e url) \<longrightarrow> files w' = files w)"
proof (induction urls arbitrary: w)
  case Nil show ?case by simp
next
  case (Cons url urls)
  from downloadWithRetry_from[of 1 e url "path_resolve tmpDir (pdf_name url)" w]
  obtain w1 where d: "downloadWithRetry e url (path_resolve tmpDir (pdf_name url)) 1 w = (Inr (), w1)"
    and f: "fails_before_stream e url \<longrightarrow> files w1 = files w"
    by auto
  from Cons[of w1] obtain w' where "download_all e tmpDir urls w1 = (Inr (), w')"
    "(\<forall>url \<in> set urls. fails_before_stream e url) \<longrightarrow> files w' = files w1" by blast
  with d f show ?case by simp
qed








section \<open>Processing the invoices of an account always returns\<close>

text \<open>
  The fuel that \<^verbatim>\<open>downloadPdfs\<close> gives to \<^verbatim>\<open>clearDirectory\<close> never runs out, and no download
  is ever rejected, so \<^verbatim>\<open>processInvoices\<close> always comes to an end, with its paths or with
  an error. Only a listing that never ends can keep the handler from answering.
\<close>

lemma downloadPdfs_returns: "\<exists>r. downloadPdfs e urls category w = Some r"
proof -
  let ?tmp = "path_join [''tmp''] category"
  from clearDirectory_enough_fuel[of "files w" ?tmp] obtain r
    where r: "clearDirectory (Suc (maxlen (files w))) (files w) ?tmp = Some r" by blast
  show ?thesis
  proof (cases r)
    case (Inl err)
    with r show ?thesis by (simp add: downloadPdfs_def)
  next
    case (Inr fs1)
    from download_all_fulfilled[of e ?tmp urls "w\<lparr>files := fs1\<rparr>"] obtain w1 where
      "download_all e ?tmp urls (w\<lparr>files := fs1\<rparr>) = (Inr (), w1)" by blast
    with r Inr show ?thesis
      by (auto simp: downloadPdfs_def Let_def split: sum.splits)
  qed
qed

lemma process_category_returns: "\<exists>r. process_category e configKey monthName yr category w = Some r"
proof -
  obtain name links where c: "category = (name, links)" by (cases category)
  show ?thesis
    using downloadPdfs_returns[of e links "toLowerCase name @ ''_'' @ configKey" w]
    by (auto simp: c process_category_def Let_def split: sum.splits prod.splits)
qed

lemma process_categories_returns:
  "\<exists>r. process_categories e cats configKey monthName yr mergedPdfPaths w = Some r"
proof (induction cats arbitrary: mergedPdfPaths w)
  case Nil show ?case by simp
next
  case (Cons c cats)
  from process_category_returns[of e configKey monthName yr c w] obtain r w1
    where r: "process_category e configKey monthName yr c w = Some (r, w1)" by auto
  show ?case
  proof (cases r)
    case (Inl err) with r show ?thesis by simp
  next
    case (Inr out)
    with r Cons[of "mergedPdfPaths @ [out]" w1] show ?thesis by simp
  qed
qed

lemma processInvoices_returns:
  "\<exists>r. processInvoices e paidAndOpenLinks otherStatusLinks configKey monthName yr w = Some r"
  unfolding processInvoices_def by (rule process_categories_returns)

section \<open>Two output paths for every account\<close>







section \<open>Validation of the request\<close>

text \<open>
  C10. The check for required fields goes by truthiness: a POST request in which
  \<^verbatim>\<open>year\<close>, \<^verbatim>\<open>month\<close> or \<^verbatim>\<open>email\<close> is missing, \<^verbatim>\<open>null\<close>, \<^verbatim>\<open>false\<close>, the number 0 or
  the empty string gets the 400 response that says the fields are required, and nothing
  else happens: the world is as it was.
\<close>

theorem handler_requires_truthy_fields:
  assumes "req_method req = ''POST''"
    and "\<exists>v \<in> {body_year req, body_month req, body_email req}.
           v = JUndefined \<or> v = JNull \<or> v = JNum 0 \<or> v = JStr [] \<or> v = JBool False"
  shows "handler e req w = Some (Response 400 ''Year, month, and email are required.'', w)"
  using assms by (auto simp: handler_def)

theorem handler_requires_truthy_fields_witness:
  "handler empty_env (post_request (JNum 0) (JStr ''3'') (JStr ''a@b.com'')) example_world =
     Some (Response 400 ''Year, month, and email are required.'', example_world) \<and>
   handler empty_env (post_request (JStr ''2024'') (JStr []) (JStr ''a@b.com'')) example_world =
     Some (Response 400 ''Year, month, and email are required.'', example_world) \<and>
   handler empty_env (post_request (JStr ''2024'') (JStr ''3'') JUndefined) example_world =
     Some (Response 400 ''Year, month, and email are required.'', example_world)"
  using handler_requires_truthy_fields[of "post_request (JNum 0) (JStr ''3'') (JStr ''a@b.com'')" empty_env example_world]
    handler_requires_truthy_fields[of "post_request (JStr ''2024'') (JStr []) (JStr ''a@b.com'')" empty_env example_world]
    handler_requires_truthy_fields[of "post_request (JStr ''2024'') (JStr ''3'') JUndefined" empty_env example_world]
  by (simp add: post_request_def)








section \<open>The date range is the month\<close>























end
